theory Spec2Isabelle
  imports Main
begin

section \<open>JavaScript strings\<close>

text \<open>
  A JavaScript string is a finite sequence of code units; one \<open>char\<close> of the model
  stands for one code unit, so \<open>length\<close> is the \<open>.length\<close> of the source
  and positions are the positions \<open>indexOf\<close> and \<open>slice\<close> count. Indices are
  \<open>int\<close>, because \<open>indexOf\<close> answers \<open>-1\<close> and \<open>slice\<close> reads a
  negative index from the end of the string.
\<close>

text \<open>The loop of \<open>String.prototype.indexOf\<close>: the smallest position \<open>k\<close> at or
  after the start with the pattern at \<open>k\<close>, or \<open>-1\<close>.\<close>

function searchFrom :: "string \<Rightarrow> string \<Rightarrow> nat \<Rightarrow> int" where
  "searchFrom s pat k =
     (if length s < k + length pat then - 1
      else if take (length pat) (drop k s) = pat then int k
      else searchFrom s pat (Suc k))"
  by pat_completeness auto
termination
  by (relation "measure (\<lambda>(s, pat, k). Suc (length s) - k)") auto

declare searchFrom.simps [simp del]

definition indexOf :: "string \<Rightarrow> string \<Rightarrow> int \<Rightarrow> int" where
  "indexOf s pat pos = searchFrom s pat (nat (min (max pos 0) (int (length s))))"

text \<open>How \<open>slice\<close> resolves one of its arguments against the length.\<close>

definition relIndex :: "nat \<Rightarrow> int \<Rightarrow> nat" where
  "relIndex len i = (if i < 0 then nat (max (int len + i) 0) else nat (min i (int len)))"

definition slice :: "string \<Rightarrow> int \<Rightarrow> int \<Rightarrow> string" where
  "slice s a b =
     (let from = relIndex (length s) a; to = relIndex (length s) b
      in take (to - from) (drop from s))"

text \<open>\<open>s.slice(a)\<close>, with the end left out.\<close>

definition sliceFrom :: "string \<Rightarrow> int \<Rightarrow> string" where
  "sliceFrom s a = drop (relIndex (length s) a) s"

text \<open>\<open>value.replace(/\*\//g, "*\\/")\<close>: every match of \<open>*/\<close>, found from left
  to right without overlap, becomes \<open>*\/\<close>.\<close>

fun escape :: "string \<Rightarrow> string" where
  "escape (a # b # rest) =
     (if a = CHR ''*'' \<and> b = CHR ''/'' then CHR ''*'' # CHR 0x5C # CHR ''/'' # escape rest
      else a # escape (b # rest))"
| "escape [a] = [a]"
| "escape [] = []"

section \<open>Objects with a null prototype\<close>

text \<open>
  The string-keyed own properties of an object made by \<open>Object.create(null)\<close>, in the
  order of their creation. Assigning to an existing key keeps its place; \<open>delete\<close>
  removes it; \<open>key in obj\<close> and \<open>obj[key]\<close> see own properties only, since there is
  no prototype.
\<close>

type_synonym props = "(string \<times> string) list"

fun setProp :: "props \<Rightarrow> string \<Rightarrow> string \<Rightarrow> props" where
  "setProp [] k v = [(k, v)]"
| "setProp ((k', v') # ps) k v =
     (if k' = k then (k, v) # ps else (k', v') # setProp ps k v)"

definition getProp :: "props \<Rightarrow> string \<Rightarrow> string option" where
  "getProp ps k = map_of ps k"

definition hasProp :: "props \<Rightarrow> string \<Rightarrow> bool" where
  "hasProp ps k = (getProp ps k \<noteq> None)"

definition deleteProp :: "props \<Rightarrow> string \<Rightarrow> props" where
  "deleteProp ps k = filter (\<lambda>p. fst p \<noteq> k) ps"

text \<open>
  \<open>for (key in obj)\<close> and \<open>Object.keys(obj)\<close> visit the keys that are array indices
  (the canonical decimal form of an integer below \<open>2^32 - 1\<close>) first, in ascending
  numeric order, and then the other keys in the order of their creation.
\<close>

definition isDigit :: "char \<Rightarrow> bool" where
  "isDigit c = (48 \<le> (of_char c :: int) \<and> (of_char c :: int) \<le> 57)"

definition decimalValue :: "string \<Rightarrow> int" where
  "decimalValue k = foldl (\<lambda>n c. 10 * n + ((of_char c :: int) - 48)) 0 k"

definition isArrayIndex :: "string \<Rightarrow> bool" where
  "isArrayIndex k =
     (k \<noteq> [] \<and> list_all isDigit k \<and> (k = ''0'' \<or> hd k \<noteq> CHR ''0'')
      \<and> decimalValue k < 4294967295)"

definition ownKeys :: "props \<Rightarrow> props" where
  "ownKeys ps =
     sort_key (\<lambda>p. decimalValue (fst p)) (filter (\<lambda>p. isArrayIndex (fst p)) ps)
     @ filter (\<lambda>p. \<not> isArrayIndex (fst p)) ps"

section \<open>The metadata store\<close>

definition prefix :: string where
  "prefix = CHR 0x0A # ''/** @autorun-''"

definition suffix :: string where
  "suffix = '' */'' @ [CHR 0x0A]"

text \<open>One element of the array kept under \<open>ValueRangesSymbol\<close>.\<close>

record valueRange =
  rkey :: string
  rvalue :: string
  rstart :: int
  rend :: int

text \<open>The object \<open>getCommentValueLookup\<close> returns: its string-keyed properties, and
  the two values kept under \<open>ValueRangesSymbol\<close> and \<open>OriginalContentsSymbol\<close>.\<close>

record valueLookup =
  vals :: props
  ranges :: "valueRange list"
  original :: string

text \<open>The \<open>while(true)\<close> loop of \<open>getCommentValueLookup\<close>, on its three variables.\<close>

lemma searchFrom_bounds:
  "0 \<le> searchFrom s pat k \<Longrightarrow>
     int k \<le> searchFrom s pat k \<and> searchFrom s pat k + int (length pat) \<le> int (length s)"
proof (induction s pat k rule: searchFrom.induct)
  case (1 s pat k)
  show ?case
  proof (cases "length s < k + length pat")
    case True
    with "1.prems" show ?thesis by (simp add: searchFrom.simps [of s pat k])
  next
    case False
    show ?thesis
    proof (cases "take (length pat) (drop k s) = pat")
      case True
      with False show ?thesis by (simp add: searchFrom.simps [of s pat k])
    next
      case neq: False
      with False "1.prems" have "0 \<le> searchFrom s pat (Suc k)"
        by (simp add: searchFrom.simps [of s pat k])
      with "1.IH" False neq have "int (Suc k) \<le> searchFrom s pat (Suc k) \<and>
          searchFrom s pat (Suc k) + int (length pat) \<le> int (length s)"
        by simp
      with False neq show ?thesis by (simp add: searchFrom.simps [of s pat k])
    qed
  qed
qed

lemma indexOf_bounds:
  assumes "0 \<le> indexOf s pat pos" and "pat \<noteq> []"
  shows "pos \<le> indexOf s pat pos" and "0 \<le> indexOf s pat pos"
    and "indexOf s pat pos + int (length pat) \<le> int (length s)"
proof -
  let ?k = "nat (min (max pos 0) (int (length s)))"
  from assms have f: "0 \<le> searchFrom s pat ?k" by (simp add: indexOf_def)
  from searchFrom_bounds [OF f]
  have b: "int ?k \<le> indexOf s pat pos" "indexOf s pat pos + int (length pat) \<le> int (length s)"
    by (simp_all add: indexOf_def)
  then show "indexOf s pat pos + int (length pat) \<le> int (length s)" by simp
  from assms(2) have "0 < int (length pat)" by simp
  with b show "pos \<le> indexOf s pat pos" by linarith
  from assms show "0 \<le> indexOf s pat pos" by simp
qed

function scanLoop :: "string \<Rightarrow> int \<Rightarrow> props \<Rightarrow> valueRange list \<Rightarrow> props \<times> valueRange list" where
  "scanLoop contents index0 outputValues rs =
     (let index = indexOf contents prefix index0 in
      if index < 0 then (outputValues, rs)
      else
        let endIndex = indexOf contents suffix index in
        if endIndex < 0 then (outputValues, rs)
        else
          let keyEnd = indexOf contents '' '' (index + int (length prefix));
              key = slice contents (index + int (length prefix)) keyEnd;
              v = slice contents (keyEnd + 1) endIndex
          in scanLoop contents (endIndex + int (length suffix))
               (setProp outputValues key v)
               (rs @ [\<lparr>rkey = key, rvalue = v, rstart = index,
                        rend = endIndex + int (length suffix)\<rparr>]))"
  by pat_completeness auto
termination
proof (relation "measure (\<lambda>(contents, index0, outputValues, rs). nat (int (length contents) - index0))")
  show "wf (measure (\<lambda>(contents, index0, outputValues, rs). nat (int (length contents) - index0)))"
    by simp
next
  fix contents :: string and index0 :: int and outputValues :: props
    and rs :: "valueRange list" and index endIndex keyEnd :: int and key v :: string
  assume a: "index = indexOf contents prefix index0" "\<not> index < 0"
    "endIndex = indexOf contents suffix index" "\<not> endIndex < 0"
  have ne: "prefix \<noteq> []" "suffix \<noteq> []" by (simp_all add: prefix_def suffix_def)
  from a ne have i: "index0 \<le> index"
    using indexOf_bounds(1) [of contents prefix index0] by simp
  from a ne have e: "index \<le> endIndex" "endIndex + int (length suffix) \<le> int (length contents)"
    using indexOf_bounds(1,3) [of contents suffix index] by simp_all
  have "length suffix = 4" by (simp add: suffix_def)
  with i e show "((contents, endIndex + int (length suffix), setProp outputValues key v,
        rs @ [\<lparr>rkey = key, rvalue = v, rstart = index, rend = endIndex + int (length suffix)\<rparr>]),
       contents, index0, outputValues, rs)
      \<in> measure (\<lambda>(contents, index0, outputValues, rs). nat (int (length contents) - index0))"
    by simp
qed

declare scanLoop.simps [simp del]

definition getCommentValueLookup :: "string \<Rightarrow> valueLookup" where
  "getCommentValueLookup contents =
     (case scanLoop contents 0 [] [] of
        (outputValues, rs) \<Rightarrow> \<lparr>vals = outputValues, ranges = rs, original = contents\<rparr>)"

text \<open>The inner function \<open>formatValue\<close> of \<open>getContentsFromLookup\<close>.\<close>

definition formatValue :: "string \<Rightarrow> string \<Rightarrow> string" where
  "formatValue key v = prefix @ key @ '' '' @ escape v @ suffix"

text \<open>One pass of the loop over the ranges (run from the last range to the first), on
  the variables \<open>contents\<close> and \<open>foundKeys\<close>.\<close>

definition rangeStep :: "props \<Rightarrow> valueRange \<Rightarrow> string \<times> string list \<Rightarrow> string \<times> string list" where
  "rangeStep valueProps r st =
     (case st of (contents, foundKeys) \<Rightarrow>
        (case getProp valueProps (rkey r) of
           Some v \<Rightarrow>
             (if v \<noteq> rvalue r
              then slice contents 0 (rstart r) @ formatValue (rkey r) v @ sliceFrom contents (rend r)
              else contents,
              rkey r # foundKeys)
         | None \<Rightarrow> (slice contents 0 (rstart r) @ sliceFrom contents (rend r), foundKeys)))"

text \<open>One pass of the \<open>for (key in valueLookup)\<close> loop.\<close>

definition newKeyStep :: "string list \<Rightarrow> string \<times> string \<Rightarrow> string \<Rightarrow> string" where
  "newKeyStep foundKeys p contents =
     (case p of (key, v) \<Rightarrow>
        if key \<in> set foundKeys then contents
        else if 60 < length v \<or> key = ''output'' then contents @ formatValue key v
        else formatValue key v @ contents)"

definition getContentsFromLookup :: "valueLookup \<Rightarrow> string" where
  "getContentsFromLookup valueLookup =
     (case fold (rangeStep (vals valueLookup)) (rev (ranges valueLookup)) (original valueLookup, []) of
        (contents, foundKeys) \<Rightarrow>
          fold (newKeyStep foundKeys) (ownKeys (vals valueLookup)) contents)"

section \<open>The fingerprint\<close>

text \<open>
  \<open>getHash\<close> of \<open>runOnFileNameInner\<close>. The digest \<open>sha512.create().update(s).hex()\<close>
  comes from the package \<open>js-sha512\<close>; it is the parameter \<open>sha512hex\<close>.
\<close>

definition deleteAllKeys :: "valueLookup \<Rightarrow> valueLookup" where
  "deleteAllKeys lk =
     lk\<lparr>vals := fold (\<lambda>key ps. deleteProp ps key) (map fst (ownKeys (vals lk))) (vals lk)\<rparr>"

definition strippedContents :: "string \<Rightarrow> string" where
  "strippedContents contents = getContentsFromLookup (deleteAllKeys (getCommentValueLookup contents))"

definition getHash :: "(string \<Rightarrow> string) \<Rightarrow> string \<Rightarrow> string" where
  "getHash sha512hex contents = sha512hex (strippedContents contents)"

section \<open>What the program does to the world\<close>

text \<open>The calls that are visible outside the process, in the order made.\<close>

datatype effect =
    ConsoleLog string
  | ConsoleError string string
  | Fork string
  | Kill string
  | WriteFile string string

text \<open>How an awaited promise settles.\<close>

datatype 'a awaited = Fulfilled 'a | Failed string

section \<open>The run coordinator\<close>

text \<open>
  The objects \<open>filesPending\<close> and \<open>filesPendingTrigger\<close> (their keys), with two
  observers of the model: \<open>started\<close> lists the calls of \<open>runOnFileNameInner\<close> in order,
  \<open>inFlight\<close> the calls whose promise has not settled yet.
\<close>

record coordinator =
  filesPending :: "string list"
  filesPendingTrigger :: "string list"
  started :: "string list"
  inFlight :: "string list"
  console :: "effect list"

definition idle :: coordinator where
  "idle = \<lparr>filesPending = [], filesPendingTrigger = [], started = [], inFlight = [], console = []\<rparr>"

text \<open>\<open>runOnFileName\<close> up to its \<open>await\<close>.\<close>

definition runOnFileName :: "string \<Rightarrow> coordinator \<Rightarrow> coordinator" where
  "runOnFileName fileName s =
     (if fileName \<in> set (filesPending s)
      then s\<lparr>filesPendingTrigger := List.insert fileName (filesPendingTrigger s)\<rparr>
      else s\<lparr>filesPending := List.insert fileName (filesPending s),
             started := started s @ [fileName],
             inFlight := inFlight s @ [fileName]\<rparr>)"

text \<open>\<open>runOnFileName\<close> from the moment the awaited promise settles: the \<open>catch\<close> and
  the \<open>finally\<close> block, with its call of \<open>runOnFileName\<close>.\<close>

definition afterRun :: "string \<Rightarrow> unit awaited \<Rightarrow> coordinator \<Rightarrow> coordinator" where
  "afterRun fileName outcome s =
     (let s1 = (case outcome of
                  Failed err \<Rightarrow> s\<lparr>console := console s @ [ConsoleError (''Error running '' @ fileName) err]\<rparr>
                | Fulfilled u \<Rightarrow> s);
          s2 = s1\<lparr>filesPending := removeAll fileName (filesPending s1),
                  inFlight := remove1 fileName (inFlight s1)\<rparr>
      in if fileName \<in> set (filesPendingTrigger s2)
         then runOnFileName fileName
                (s2\<lparr>filesPendingTrigger := removeAll fileName (filesPendingTrigger s2)\<rparr>)
         else s2)"




section \<open>One run\<close>

text \<open>The variables of \<open>runOnFileNameInner\<close> that its inner functions share.\<close>

record job =
  jobContents :: string
  jobOutputValues :: valueLookup
  jobHash :: string
  jobOutput :: string
  jobDone :: bool

text \<open>
  \<open>runOnFileNameInner\<close> up to \<open>child_process.fork\<close>: what it does and, unless it returns
  early, the variables of the run. \<open>readResult\<close> and \<open>statResult\<close> are how the two
  awaited promises settle (the file read, decoded as UTF-8).
\<close>

definition startRun ::
  "(string \<Rightarrow> string) \<Rightarrow> string \<Rightarrow> string \<Rightarrow> string awaited \<Rightarrow> unit awaited
     \<Rightarrow> effect list \<times> job option" where
  "startRun sha512hex scriptFolder fileName readResult statResult =
     (case readResult of
        Failed e \<Rightarrow> ([], None)
      | Fulfilled contents \<Rightarrow>
          (case statResult of
             Failed e \<Rightarrow> ([], None)
           | Fulfilled stats \<Rightarrow>
               (let outputValues = getCommentValueLookup contents;
                    hash = getHash sha512hex contents
                in if getProp (vals outputValues) ''lastRunHash'' = Some hash then ([], None)
                   else ([ConsoleLog (''Rerunning '' @ fileName),
                          Fork (scriptFolder @ ''/'' @ fileName)],
                         Some \<lparr>jobContents = contents, jobOutputValues = outputValues,
                               jobHash = hash, jobOutput = [CHR 0x0A], jobDone = False\<rparr>))))"

subsection \<open>The events of the child process\<close>

datatype emitter = Proc | ProcStdout | ProcStderr

datatype argument = Chunk string | ExitCode "int option" | ErrorValue string | NoArgument

record emitted =
  source :: emitter
  eventName :: string
  argument :: argument

text \<open>A number in a template literal.\<close>

fun showNat :: "nat \<Rightarrow> string" where
  "showNat n = (if n < 10 then [char_of (48 + n)] else showNat (n div 10) @ [char_of (48 + n mod 10)])"

declare showNat.simps [simp del]

definition showCode :: "int option \<Rightarrow> string" where
  "showCode code =
     (case code of
        None \<Rightarrow> ''null''
      | Some n \<Rightarrow> if n < 0 then ''-'' @ showNat (nat (- n)) else showNat (nat n))"

definition chunkText :: "argument \<Rightarrow> string" where
  "chunkText a = (case a of Chunk s \<Rightarrow> s | ErrorValue s \<Rightarrow> s | ExitCode c \<Rightarrow> showCode c | NoArgument \<Rightarrow> ''undefined'')"

text \<open>
  The five listeners of \<open>runOnFileNameInner\<close>, in the order registered; an event reaches
  the listener registered on its emitter under its name. The second component says
  whether \<open>onDone\<close> has been called.
\<close>

definition deliver :: "emitted \<Rightarrow> job \<times> bool \<Rightarrow> job \<times> bool" where
  "deliver ev st =
     (case st of (j, resolved) \<Rightarrow>
        if source ev = Proc \<and> eventName ev = ''error'' then
          (j\<lparr>jobOutput := jobOutput j @ [CHR 0x0A] @ ''Ending with error '' @ chunkText (argument ev) @ [CHR 0x0A]\<rparr>,
           True)
        else if source ev = Proc \<and> eventName ev = ''exit'' then
          (if argument ev \<noteq> ExitCode (Some 0)
           then j\<lparr>jobOutput := jobOutput j @ [CHR 0x0A] @ ''Exit code non-0, was '' @ chunkText (argument ev) @ [CHR 0x0A]\<rparr>
           else j,
           resolved)
        else if source ev = ProcStdout \<and> eventName ev = ''end'' then (j, True)
        else if source ev = ProcStdout \<and> eventName ev = ''data'' then
          (j\<lparr>jobOutput := jobOutput j @ chunkText (argument ev)\<rparr>, resolved)
        else if source ev = ProcStderr \<and> eventName ev = ''err'' then
          (j\<lparr>jobOutput := jobOutput j @ chunkText (argument ev)\<rparr>, resolved)
        else (j, resolved))"

subsection \<open>Checkpoints\<close>

text \<open>
  \<open>writeContents\<close> from the moment its read settles to the call of
  \<open>writeFilePromise\<close> or the \<open>throw\<close>. The result says what is to be written and
  whether the run is being stopped, or what was thrown.
\<close>

definition hashChangeError :: string where
  "hashChangeError = ''Error: Our file change will trigger a hash change, so our change is invalid.''"

definition writeContents_afterRead ::
  "(string \<Rightarrow> string) \<Rightarrow> string \<Rightarrow> job \<Rightarrow> string awaited
     \<Rightarrow> job \<times> effect list \<times> (string \<times> bool) awaited" where
  "writeContents_afterRead sha512hex fileName j readResult =
     (let testCurOutputValues =
            (case readResult of Fulfilled s \<Rightarrow> Some (getCommentValueLookup s) | Failed e \<Rightarrow> None);
          shouldKill =
            (case testCurOutputValues of Some t \<Rightarrow> hasProp (vals t) ''stop'' | None \<Rightarrow> False);
          picked =
            (case testCurOutputValues of
               Some t \<Rightarrow>
                 if hasProp (vals t) ''stop'' then t
                 else (jobOutputValues j)\<lparr>vals :=
                        setProp (setProp (vals (jobOutputValues j)) ''output'' (jobOutput j))
                          ''lastRunHash'' (jobHash j)\<rparr>
             | None \<Rightarrow>
                 (jobOutputValues j)\<lparr>vals :=
                    setProp (setProp (vals (jobOutputValues j)) ''output'' (jobOutput j))
                      ''lastRunHash'' (jobHash j)\<rparr>);
          outputValues = picked\<lparr>vals := deleteProp (vals picked) ''stop''\<rparr>;
          contents = getContentsFromLookup outputValues;
          j' = j\<lparr>jobContents := contents, jobOutputValues := outputValues\<rparr>;
          killing =
            (if shouldKill
             then [ConsoleLog (''Trying to stop previous run of file '' @ fileName), Kill ''SIGKILL'']
             else [])
      in if \<not> shouldKill \<and> jobHash j \<noteq> getHash sha512hex contents
         then (j', killing, Failed hashChangeError)
         else (j', killing, Fulfilled (contents, shouldKill)))"

text \<open>
  The other two parts of \<open>writeContents\<close>: its first line, which says whether the call
  goes on to read the file (\<open>if(done) return\<close>), and its last lines, from the moment
  the write settles, with the local variable \<open>shouldKill\<close>. A rejected write is thrown
  on; after a write that succeeded \<open>done\<close> is set when the run was being stopped.
\<close>

definition writeContents_enter :: "job \<Rightarrow> bool" where
  "writeContents_enter j = (\<not> jobDone j)"

definition writeContents_afterWrite :: "job \<Rightarrow> bool \<Rightarrow> unit awaited \<Rightarrow> job \<times> unit awaited" where
  "writeContents_afterWrite j shouldKill writeResult =
     (case writeResult of
        Failed err \<Rightarrow> (j, Failed err)
      | Fulfilled u \<Rightarrow> (if shouldKill then j\<lparr>jobDone := True\<rparr> else j, Fulfilled ()))"

subsection \<open>The tasks of a run\<close>

text \<open>
  A run has two tasks that call \<open>writeContents\<close>, and each waits at the two \<open>await\<close>s
  of its call while the other task and the listeners go on. \<open>writeLoop\<close> is the promise
  of an async function that is called on the spot; the promise is kept in a variable that
  nothing reads, so nothing awaits it and it has no rejection handler: its loop is
  turning, or it has left the loop, or the promise is rejected with what
  \<open>writeContents\<close> threw. The other task is \<open>runOnFileNameInner\<close> itself, which goes on
  behind \<open>await promise\<close> once \<open>onDone\<close> has been called; how its promise settles is
  what \<open>runOnFileName\<close> awaits.
\<close>

datatype loopState = Turning | Left | Rejected string

text \<open>Where a call of \<open>writeContents\<close> stands: not made, waiting for its read, or
  waiting for its write (with its \<open>shouldKill\<close>).\<close>

datatype call = NotCalled | AwaitsRead | AwaitsWrite bool

record run =
  runJob :: job
  promiseResolved :: bool
  writeLoop :: loopState
  loopCall :: call
  endCall :: call
  settled :: "unit awaited option"
  runEffects :: "effect list"

text \<open>The run when \<open>runOnFileNameInner\<close> reaches \<open>await promise\<close>: \<open>writeLoop\<close> has been
  called and, \<open>done\<close> being false, waits for the first read.\<close>

definition launched :: "job \<Rightarrow> run" where
  "launched j = \<lparr>runJob = j, promiseResolved = False, writeLoop = Turning, loopCall = AwaitsRead,
     endCall = NotCalled, settled = None, runEffects = []\<rparr>"

text \<open>
  What the scheduler can run next: \<open>writeLoop\<close> at the head of its loop (at the start
  and after each sleep), the read or the write of its call settling, a listener for an
  event of the child, \<open>runOnFileNameInner\<close> going on behind \<open>await promise\<close>, and the
  read or the write of the call made there settling. The answer is \<open>None\<close> when the step
  cannot be taken in the state.
\<close>

datatype tick =
    LoopEnters
  | LoopReadSettles "string awaited"
  | LoopWriteSettles "unit awaited"
  | Emits emitted
  | EndEnters
  | EndReadSettles "string awaited"
  | EndWriteSettles "unit awaited"

definition tickRun ::
  "(string \<Rightarrow> string) \<Rightarrow> string \<Rightarrow> string \<Rightarrow> tick \<Rightarrow> run \<Rightarrow> run option" where
  "tickRun sha512hex fileName filePath t r =
     (case t of
        LoopEnters \<Rightarrow>
          if writeLoop r = Turning \<and> loopCall r = NotCalled
          then (if writeContents_enter (runJob r) then Some (r\<lparr>loopCall := AwaitsRead\<rparr>)
                else Some (r\<lparr>writeLoop := Left\<rparr>))
          else None
      | LoopReadSettles readResult \<Rightarrow>
          if loopCall r = AwaitsRead
          then (case writeContents_afterRead sha512hex fileName (runJob r) readResult of
                  (j', effs, Failed err) \<Rightarrow>
                    Some (r\<lparr>runJob := j', runEffects := runEffects r @ effs,
                            loopCall := NotCalled, writeLoop := Rejected err\<rparr>)
                | (j', effs, Fulfilled (contents, shouldKill)) \<Rightarrow>
                    Some (r\<lparr>runJob := j',
                            runEffects := runEffects r @ effs @ [WriteFile filePath contents],
                            loopCall := AwaitsWrite shouldKill\<rparr>))
          else None
      | LoopWriteSettles writeResult \<Rightarrow>
          (case loopCall r of
             AwaitsWrite shouldKill \<Rightarrow>
               (case writeContents_afterWrite (runJob r) shouldKill writeResult of
                  (j', Failed err) \<Rightarrow>
                    Some (r\<lparr>runJob := j', loopCall := NotCalled, writeLoop := Rejected err\<rparr>)
                | (j', Fulfilled u) \<Rightarrow> Some (r\<lparr>runJob := j', loopCall := NotCalled\<rparr>))
           | NotCalled \<Rightarrow> None
           | AwaitsRead \<Rightarrow> None)
      | Emits ev \<Rightarrow>
          (case deliver ev (runJob r, promiseResolved r) of
             (j', resolved) \<Rightarrow> Some (r\<lparr>runJob := j', promiseResolved := resolved\<rparr>))
      | EndEnters \<Rightarrow>
          if promiseResolved r \<and> endCall r = NotCalled \<and> settled r = None
          then (if writeContents_enter (runJob r)
                then Some (r\<lparr>runEffects := runEffects r @ [ConsoleLog (''Finished '' @ fileName)],
                             endCall := AwaitsRead\<rparr>)
                else Some (r\<lparr>settled := Some (Fulfilled ())\<rparr>))
          else None
      | EndReadSettles readResult \<Rightarrow>
          if endCall r = AwaitsRead
          then (case writeContents_afterRead sha512hex fileName (runJob r) readResult of
                  (j', effs, Failed err) \<Rightarrow>
                    Some (r\<lparr>runJob := j', runEffects := runEffects r @ effs,
                            endCall := NotCalled, settled := Some (Failed err)\<rparr>)
                | (j', effs, Fulfilled (contents, shouldKill)) \<Rightarrow>
                    Some (r\<lparr>runJob := j',
                            runEffects := runEffects r @ effs @ [WriteFile filePath contents],
                            endCall := AwaitsWrite shouldKill\<rparr>))
          else None
      | EndWriteSettles writeResult \<Rightarrow>
          (case endCall r of
             AwaitsWrite shouldKill \<Rightarrow>
               (case writeContents_afterWrite (runJob r) shouldKill writeResult of
                  (j', Failed err) \<Rightarrow>
                    Some (r\<lparr>runJob := j', endCall := NotCalled, settled := Some (Failed err)\<rparr>)
                | (j', Fulfilled u) \<Rightarrow>
                    Some (r\<lparr>runJob := j'\<lparr>jobDone := True\<rparr>, endCall := NotCalled,
                            settled := Some (Fulfilled ())\<rparr>))
           | NotCalled \<Rightarrow> None
           | AwaitsRead \<Rightarrow> None))"

fun ticks ::
  "(string \<Rightarrow> string) \<Rightarrow> string \<Rightarrow> string \<Rightarrow> tick list \<Rightarrow> run \<Rightarrow> run option" where
  "ticks sha512hex fileName filePath [] r = Some r"
| "ticks sha512hex fileName filePath (t # ts) r =
     (case tickRun sha512hex fileName filePath t r of
        None \<Rightarrow> None
      | Some r' \<Rightarrow> ticks sha512hex fileName filePath ts r')"

text \<open>
  One turn of \<open>writeLoop\<close> between whose steps nothing else of the run is scheduled: the
  head of the loop, then the read settling, then (unless \<open>writeContents\<close> threw) the write
  settling. It gives the variables of the run, the state of \<open>writeLoop\<close> and what the turn
  did.
\<close>

definition writeLoopTurn ::
  "(string \<Rightarrow> string) \<Rightarrow> string \<Rightarrow> string \<Rightarrow> job \<times> loopState \<Rightarrow> string awaited \<Rightarrow> unit awaited
     \<Rightarrow> (job \<times> loopState) \<times> effect list" where
  "writeLoopTurn sha512hex fileName filePath st readResult writeResult =
     (case st of
        (j, Turning) \<Rightarrow>
          if \<not> writeContents_enter j then ((j, Left), [])
          else
            (case writeContents_afterRead sha512hex fileName j readResult of
               (j', effs, Failed err) \<Rightarrow> ((j', Rejected err), effs)
             | (j', effs, Fulfilled (contents, shouldKill)) \<Rightarrow>
                 (case writeContents_afterWrite j' shouldKill writeResult of
                    (j'', Failed err) \<Rightarrow> ((j'', Rejected err), effs @ [WriteFile filePath contents])
                  | (j'', Fulfilled u) \<Rightarrow> ((j'', Turning), effs @ [WriteFile filePath contents])))
      | (j, l) \<Rightarrow> ((j, l), []))"

section \<open>Notions used by the proofs\<close>

subsection \<open>Occurrences of a pattern\<close>

text \<open>The pattern stands in the string at position \<open>k\<close>.\<close>

definition occursAt :: "string \<Rightarrow> string \<Rightarrow> nat \<Rightarrow> bool" where
  "occursAt pat s k = (k + length pat \<le> length s \<and> take (length pat) (drop k s) = pat)"

text \<open>Position \<open>j\<close> is the first at or after \<open>i\<close> where the pattern stands: what
  \<open>indexOf\<close> finds.\<close>

definition firstOcc :: "string \<Rightarrow> string \<Rightarrow> nat \<Rightarrow> nat \<Rightarrow> bool" where
  "firstOcc pat s i j = (i \<le> j \<and> occursAt pat s j \<and> (\<forall>m. i \<le> m \<and> m < j \<longrightarrow> \<not> occursAt pat s m))"

text \<open>The string holds no opening marker, as \<open>indexOf\<close> answers it.\<close>

definition noMarker :: "string \<Rightarrow> bool" where
  "noMarker s = (indexOf s prefix 0 < 0)"

text \<open>A text that begins with the opening marker and whose first closing marker is its
  end: what one block of the contents looks like.\<close>

definition closedBlock :: "string \<Rightarrow> bool" where
  "closedBlock b = (indexOf b prefix 0 = 0 \<and> indexOf b suffix 0 + 4 = int (length b))"

definition okPiece :: "string \<Rightarrow> bool" where
  "okPiece p = (p = [] \<or> closedBlock p)"

text \<open>The value holds \<open>*/\<close> somewhere.\<close>

fun hasStarSlash :: "string \<Rightarrow> bool" where
  "hasStarSlash (a # b # rest) = ((a = CHR ''*'' \<and> b = CHR ''/'') \<or> hasStarSlash (b # rest))"
| "hasStarSlash [a] = False"
| "hasStarSlash [] = False"

subsection \<open>The ranges that the scanning loop finds\<close>

text \<open>The ranges found from position \<open>i\<close> on, and the range that one pass of the loop
  pushes for an opening marker at \<open>index\<close> and a closing marker at \<open>endIndex\<close>.\<close>

definition scanRanges :: "string \<Rightarrow> int \<Rightarrow> valueRange list" where
  "scanRanges c i = snd (scanLoop c i [] [])"

definition rangeAt :: "string \<Rightarrow> int \<Rightarrow> int \<Rightarrow> valueRange" where
  "rangeAt c index endIndex =
     (let keyEnd = indexOf c '' '' (index + int (length prefix))
      in \<lparr>rkey = slice c (index + int (length prefix)) keyEnd,
          rvalue = slice c (keyEnd + 1) endIndex,
          rstart = index, rend = endIndex + int (length suffix)\<rparr>)"

text \<open>The assignments \<open>outputValues[key] = value\<close> of the loop, in the order of the
  ranges.\<close>

definition setAll :: "valueRange list \<Rightarrow> props \<Rightarrow> props" where
  "setAll rs ps = fold (\<lambda>r ps. setProp ps (rkey r) (rvalue r)) rs ps"

text \<open>The ranges lie one behind the other, from \<open>off\<close> on, inside a string of length
  \<open>n\<close>.\<close>

fun chained :: "nat \<Rightarrow> valueRange list \<Rightarrow> nat \<Rightarrow> bool" where
  "chained off [] n = (off \<le> n)"
| "chained off (r # rs) n =
     (int off \<le> rstart r \<and> rstart r \<le> rend r \<and> chained (nat (rend r)) rs n)"

definition shiftRange :: "nat \<Rightarrow> valueRange \<Rightarrow> valueRange" where
  "shiftRange n r = r\<lparr>rstart := rstart r + int n, rend := rend r + int n\<rparr>"

text \<open>The blocks that share a key hold the same value.\<close>

definition consistentKeys :: "valueRange list \<Rightarrow> bool" where
  "consistentKeys rs = (\<forall>r\<in>set rs. \<forall>r'\<in>set rs. rkey r = rkey r' \<longrightarrow> rvalue r = rvalue r')"

subsection \<open>The text inside and outside the ranges\<close>

text \<open>
  \<open>outsideFrom c off rs\<close> are the pieces of \<open>c\<close> that lie outside the ranges, from
  \<open>off\<close> on: the text before the first range, between two ranges, and behind the last
  one. \<open>inside c r\<close> is the text of a range. \<open>weave\<close> puts a list of outside pieces
  and a list of inside pieces together again, in turns.
\<close>

fun outsideFrom :: "string \<Rightarrow> int \<Rightarrow> valueRange list \<Rightarrow> string list" where
  "outsideFrom c off [] = [sliceFrom c off]"
| "outsideFrom c off (r # rs) = slice c off (rstart r) # outsideFrom c (rend r) rs"

definition inside :: "string \<Rightarrow> valueRange \<Rightarrow> string" where
  "inside c r = slice c (rstart r) (rend r)"

fun weave :: "string list \<Rightarrow> string list \<Rightarrow> string" where
  "weave (g # gs) (p # ps) = g @ p @ weave gs ps"
| "weave gs [] = concat gs"
| "weave [] ps = concat ps"

text \<open>What the loop over the ranges puts in the place of a range, under the value map
  \<open>V\<close>: a new block, the old text, or nothing.\<close>

definition pieceFor :: "props \<Rightarrow> string \<Rightarrow> valueRange \<Rightarrow> string" where
  "pieceFor V c r =
     (case getProp V (rkey r) of
        Some v \<Rightarrow> if v \<noteq> rvalue r then formatValue (rkey r) v else inside c r
      | None \<Rightarrow> [])"

subsection \<open>The two loops of \<open>getContentsFromLookup\<close>\<close>

text \<open>The contents after the loop over the ranges; the properties that no range holds,
  in the order \<open>for (key in valueLookup)\<close> visits them; the test that sends a new block
  behind the contents; and the block of a property.\<close>

definition rewriteRanges :: "valueLookup \<Rightarrow> string" where
  "rewriteRanges lk = fst (fold (rangeStep (vals lk)) (rev (ranges lk)) (original lk, []))"

definition newKeys :: "valueLookup \<Rightarrow> props" where
  "newKeys lk = filter (\<lambda>p. fst p \<notin> set (map rkey (ranges lk))) (ownKeys (vals lk))"

definition atEnd :: "string \<times> string \<Rightarrow> bool" where
  "atEnd p = (60 < length (snd p) \<or> fst p = ''output'')"

definition formatProp :: "string \<times> string \<Rightarrow> string" where
  "formatProp p = formatValue (fst p) (snd p)"

text \<open>The assignments \<open>lookup[key] = value\<close> for a list of keys and values, in order.\<close>

definition assign :: "props \<Rightarrow> valueLookup \<Rightarrow> valueLookup" where
  "assign kvs lk = lk\<lparr>vals := fold (\<lambda>p ps. setProp ps (fst p) (snd p)) kvs (vals lk)\<rparr>"

definition metadataKeys :: "string list" where
  "metadataKeys = [''lastRunHash'', ''output'', ''stop'']"

subsection \<open>The coordinator and the run\<close>


text \<open>The lookup that \<open>writeContents\<close> adopts when the fresh contents hold a \<open>stop\<close>
  key: parsed from them, with the key deleted.\<close>

definition stopAdopted :: "string \<Rightarrow> valueLookup" where
  "stopAdopted fresh =
     (getCommentValueLookup fresh)\<lparr>vals := deleteProp (vals (getCommentValueLookup fresh)) ''stop''\<rparr>"

subsection \<open>Inputs on which the theorems are tried\<close>

definition dupContents :: string where
  "dupContents = prefix @ ''a 1'' @ suffix @ prefix @ ''a 2'' @ suffix"

definition twinContents :: string where
  "twinContents = ''x'' @ prefix @ ''a 1'' @ suffix @ ''y'' @ prefix @ ''a 1'' @ suffix"

definition sampleContents :: string where
  "sampleContents = ''x'' @ prefix @ ''a 1'' @ suffix @ ''y'' @ prefix @ ''stop now'' @ suffix @ ''z''"

definition sampleValues :: props where
  "sampleValues = [(''a'', ''2''), (''output'', ''hi''), (''s'', ''t'')]"

definition openContents :: string where
  "openContents = ''x'' @ prefix @ ''y''"

definition firstValues :: props where
  "firstValues = [(''lastRunHash'', ''0f3a''), (''output'', ''hi''), (''stop'', [])]"

definition secondValues :: props where
  "secondValues = [(''output'', ''bye */ now'')]"

definition unchangedContents :: string where
  "unchangedContents = prefix @ ''lastRunHash body'' @ suffix @ ''body''"

definition openJob :: job where
  "openJob = \<lparr>jobContents = ''x'' @ prefix @ ''y'',
     jobOutputValues = \<lparr>vals = [], ranges = [], original = ''x'' @ prefix @ ''y''\<rparr>,
     jobHash = ''x'' @ prefix @ ''y'', jobOutput = [CHR 0x0A], jobDone = False\<rparr>"

definition stderrEvents :: "emitted list" where
  "stderrEvents =
     [\<lparr>source = ProcStderr, eventName = ''data'', argument = Chunk ''oops''\<rparr>,
      \<lparr>source = ProcStdout, eventName = ''data'', argument = Chunk (''hi'' @ [CHR 0x0A])\<rparr>,
      \<lparr>source = Proc, eventName = ''exit'', argument = ExitCode (Some 0)\<rparr>,
      \<lparr>source = ProcStdout, eventName = ''end'', argument = NoArgument\<rparr>]"

text \<open>
  A run of a script \<open>a.js\<close> whose file holds \<open>x\<close>, and a schedule of it: the child
  writes \<open>partial\<close>; the first checkpoint reads the file with a \<open>stop\<close> block put in;
  the killed child exits and its output ends; \<open>runOnFileNameInner\<close> goes on behind
  \<open>await promise\<close>; the write of the first checkpoint settles; the last checkpoint
  reads what was written and writes in its turn.
\<close>

definition plainJob :: job where
  "plainJob = \<lparr>jobContents = ''x'',
     jobOutputValues = \<lparr>vals = [], ranges = [], original = ''x''\<rparr>,
     jobHash = ''x'', jobOutput = [CHR 0x0A], jobDone = False\<rparr>"

definition cancelSchedule :: "tick list" where
  "cancelSchedule =
     [Emits \<lparr>source = ProcStdout, eventName = ''data'', argument = Chunk ''partial''\<rparr>,
      LoopReadSettles (Fulfilled (''x'' @ prefix @ ''stop 1'' @ suffix)),
      Emits \<lparr>source = Proc, eventName = ''exit'', argument = ExitCode None\<rparr>,
      Emits \<lparr>source = ProcStdout, eventName = ''end'', argument = NoArgument\<rparr>,
      EndEnters,
      LoopWriteSettles (Fulfilled ()),
      EndReadSettles (Fulfilled ''x''),
      EndWriteSettles (Fulfilled ())]"

section \<open>Searching a string\<close>

lemma searchFrom_cases:
  "(searchFrom s pat k = - 1 \<and> (\<forall>j\<ge>k. \<not> occursAt pat s j))
   \<or> (\<exists>j. searchFrom s pat k = int j \<and> firstOcc pat s k j)"
proof (induction s pat k rule: searchFrom.induct)
  case (1 s pat k)
  show ?case
  proof (cases "length s < k + length pat")
    case True
    then have "searchFrom s pat k = - 1" by (simp add: searchFrom.simps [of s pat k])
    moreover from True have "\<forall>j\<ge>k. \<not> occursAt pat s j" by (auto simp: occursAt_def)
    ultimately show ?thesis by blast
  next
    case False
    show ?thesis
    proof (cases "take (length pat) (drop k s) = pat")
      case True
      with False have "searchFrom s pat k = int k" by (simp add: searchFrom.simps [of s pat k])
      moreover from True False have "firstOcc pat s k k" by (auto simp: firstOcc_def occursAt_def)
      ultimately show ?thesis by blast
    next
      case neq: False
      with False have eq: "searchFrom s pat k = searchFrom s pat (Suc k)"
        by (simp add: searchFrom.simps [of s pat k])
      from neq have nk: "\<not> occursAt pat s k" by (simp add: occursAt_def)
      from "1.IH" [OF False neq]
      consider (none) "searchFrom s pat (Suc k) = - 1" "\<forall>j\<ge>Suc k. \<not> occursAt pat s j"
        | (some) j where "searchFrom s pat (Suc k) = int j" "firstOcc pat s (Suc k) j"
        by blast
      then show ?thesis
      proof cases
        case none
        have "\<forall>j\<ge>k. \<not> occursAt pat s j"
        proof (intro allI impI)
          fix j assume "k \<le> j"
          then have "j = k \<or> Suc k \<le> j" by arith
          with nk none(2) show "\<not> occursAt pat s j" by blast
        qed
        with none(1) eq show ?thesis by simp
      next
        case some
        have "firstOcc pat s k j"
          unfolding firstOcc_def
        proof (intro conjI allI impI)
          from some(2) show "k \<le> j" by (simp add: firstOcc_def)
          from some(2) show "occursAt pat s j" by (simp add: firstOcc_def)
          fix m assume "k \<le> m \<and> m < j"
          then have "m = k \<or> (Suc k \<le> m \<and> m < j)" by arith
          with nk some(2) show "\<not> occursAt pat s m" by (auto simp: firstOcc_def)
        qed
        with some(1) eq show ?thesis by auto
      qed
    qed
  qed
qed

lemma firstOcc_unique: "firstOcc pat s i j \<Longrightarrow> firstOcc pat s i j' \<Longrightarrow> j = j'"
  unfolding firstOcc_def by (meson linorder_neqE_nat)

lemma indexOf_nat: "indexOf s pat (int i) = searchFrom s pat (min i (length s))"
  by (simp add: indexOf_def min_def)

lemma occursAt_lt: "occursAt pat s j \<Longrightarrow> pat \<noteq> [] \<Longrightarrow> j < length s"
  by (cases pat) (auto simp: occursAt_def)

lemma indexOf_first:
  assumes "firstOcc pat s i j" and "pat \<noteq> []"
  shows "indexOf s pat (int i) = int j"
proof -
  from assms have jl: "j < length s" by (auto simp: firstOcc_def dest: occursAt_lt)
  with assms(1) have il: "min i (length s) = i" by (simp add: firstOcc_def)
  from searchFrom_cases [of s pat i] assms(1)
  obtain j' where j': "searchFrom s pat i = int j'" "firstOcc pat s i j'"
    by (auto simp: firstOcc_def)
  from firstOcc_unique [OF assms(1) j'(2)] j'(1) show ?thesis
    unfolding indexOf_nat il by simp
qed

lemma indexOf_none:
  assumes "\<forall>j\<ge>i. \<not> occursAt pat s j" and "pat \<noteq> []"
  shows "indexOf s pat (int i) = - 1"
proof -
  from assms have "\<forall>j\<ge>min i (length s). \<not> occursAt pat s j"
    by (auto simp: min_def dest: occursAt_lt)
  with searchFrom_cases [of s pat "min i (length s)"] show ?thesis
    unfolding indexOf_nat by (auto simp: firstOcc_def)
qed

lemma occ_cases:
  "(\<forall>j\<ge>i. \<not> occursAt pat s j) \<or> (\<exists>j. firstOcc pat s i j)"
  using searchFrom_cases [of s pat i] by blast

section \<open>The scanning loop\<close>

lemma scanLoop_stop1:
  "indexOf c prefix i < 0 \<Longrightarrow> scanLoop c i v rs = (v, rs)"
  by (simp add: scanLoop.simps [of c i v rs])

lemma scanLoop_stop2:
  "0 \<le> indexOf c prefix i \<Longrightarrow> indexOf c suffix (indexOf c prefix i) < 0 \<Longrightarrow>
     scanLoop c i v rs = (v, rs)"
  by (simp add: scanLoop.simps [of c i v rs] Let_def)

lemma scanLoop_step:
  "0 \<le> indexOf c prefix i \<Longrightarrow> 0 \<le> indexOf c suffix (indexOf c prefix i) \<Longrightarrow>
     scanLoop c i v rs =
       scanLoop c (indexOf c suffix (indexOf c prefix i) + int (length suffix))
         (setProp v (rkey (rangeAt c (indexOf c prefix i) (indexOf c suffix (indexOf c prefix i))))
                    (rvalue (rangeAt c (indexOf c prefix i) (indexOf c suffix (indexOf c prefix i)))))
         (rs @ [rangeAt c (indexOf c prefix i) (indexOf c suffix (indexOf c prefix i))])"
  by (simp add: scanLoop.simps [of c i v rs] Let_def rangeAt_def)

lemma prefix_ne: "prefix \<noteq> []" and suffix_ne: "suffix \<noteq> []"
  and length_prefix: "length prefix = 14" and length_suffix: "length suffix = 4"
  by (simp_all add: prefix_def suffix_def)

lemma scanLoop_acc:
  "scanLoop c i v rs = (setAll (scanRanges c i) v, rs @ scanRanges c i)"
proof (induction "nat (int (length c) - i)" arbitrary: i v rs rule: less_induct)
  case less
  let ?p = "indexOf c prefix i"
  let ?e = "indexOf c suffix ?p"
  show ?case
  proof (cases "?p < 0")
    case True
    then show ?thesis by (simp add: scanLoop_stop1 scanRanges_def setAll_def)
  next
    case False
    then have p: "0 \<le> ?p" by simp
    show ?thesis
    proof (cases "?e < 0")
      case True
      with p show ?thesis by (simp add: scanLoop_stop2 scanRanges_def setAll_def)
    next
      case False
      then have e: "0 \<le> ?e" by simp
      let ?r = "rangeAt c ?p ?e"
      let ?i' = "?e + int (length suffix)"
      from indexOf_bounds(1) [OF p prefix_ne] indexOf_bounds(1,3) [OF e suffix_ne]
      have "nat (int (length c) - ?i') < nat (int (length c) - i)"
        by (simp add: length_suffix)
      note IH = less [OF this]
      have "scanLoop c i v rs = scanLoop c ?i' (setProp v (rkey ?r) (rvalue ?r)) (rs @ [?r])"
        by (rule scanLoop_step [OF p e])
      also have "\<dots> = (setAll (scanRanges c ?i') (setProp v (rkey ?r) (rvalue ?r)),
                        (rs @ [?r]) @ scanRanges c ?i')"
        by (rule IH)
      finally have a: "scanLoop c i v rs = (setAll (?r # scanRanges c ?i') v, rs @ ?r # scanRanges c ?i')"
        by (simp add: setAll_def)
      have "scanLoop c i [] [] = scanLoop c ?i' (setProp [] (rkey ?r) (rvalue ?r)) ([] @ [?r])"
        by (rule scanLoop_step [OF p e])
      also have "\<dots> = (setAll (scanRanges c ?i') (setProp [] (rkey ?r) (rvalue ?r)),
                        ([] @ [?r]) @ scanRanges c ?i')"
        by (rule IH)
      finally have "scanRanges c i = ?r # scanRanges c ?i'"
        by (simp add: scanRanges_def)
      with a show ?thesis by simp
    qed
  qed
qed

lemma getCommentValueLookup_eq:
  "getCommentValueLookup c =
     \<lparr>vals = setAll (scanRanges c 0) [], ranges = scanRanges c 0, original = c\<rparr>"
  by (simp add: getCommentValueLookup_def scanLoop_acc)

lemma scanRanges_none1:
  assumes "\<forall>j\<ge>i. \<not> occursAt prefix c j"
  shows "scanRanges c (int i) = []"
  using indexOf_none [OF assms prefix_ne]
  by (simp add: scanRanges_def scanLoop_stop1)

lemma scanRanges_none2:
  assumes "firstOcc prefix c i p" and "\<forall>j\<ge>p. \<not> occursAt suffix c j"
  shows "scanRanges c (int i) = []"
  using indexOf_first [OF assms(1) prefix_ne] indexOf_none [OF assms(2) suffix_ne]
  by (simp add: scanRanges_def scanLoop_stop2)

lemma scanRanges_step:
  assumes "firstOcc prefix c i p" and "firstOcc suffix c p e"
  shows "scanRanges c (int i) = rangeAt c (int p) (int e) # scanRanges c (int (e + 4))"
proof -
  have p: "indexOf c prefix (int i) = int p" by (rule indexOf_first [OF assms(1) prefix_ne])
  have e: "indexOf c suffix (int p) = int e" by (rule indexOf_first [OF assms(2) suffix_ne])
  let ?r = "rangeAt c (int p) (int e)"
  have "scanLoop c (int i) [] [] =
      scanLoop c (int e + int (length suffix)) (setProp [] (rkey ?r) (rvalue ?r)) ([] @ [?r])"
    using scanLoop_step [of c "int i" "[]" "[]"] by (simp add: p e)
  also have "\<dots> = (setAll (scanRanges c (int e + int (length suffix))) (setProp [] (rkey ?r) (rvalue ?r)),
      ([] @ [?r]) @ scanRanges c (int e + int (length suffix)))"
    by (rule scanLoop_acc)
  finally have "snd (scanLoop c (int i) [] []) = ?r # scanRanges c (int e + int (length suffix))"
    by simp
  then show ?thesis
    by (simp add: scanRanges_def [of c "int i"] length_suffix)
qed

section \<open>The two loops of the serializer\<close>

lemma chained_le: "chained off rs n \<Longrightarrow> off \<le> n"
proof (induction rs arbitrary: off)
  case Nil
  then show ?case by simp
next
  case (Cons r rs)
  from Cons.prems have "chained (nat (rend r)) rs n" by simp
  from Cons.IH [OF this] Cons.prems show ?case by (simp, linarith)
qed

lemma slice_nat:
  "a \<le> b \<Longrightarrow> b \<le> length c \<Longrightarrow> slice c (int a) (int b) = take (b - a) (drop a c)"
  by (simp add: slice_def relIndex_def Let_def)

lemma sliceFrom_nat: "sliceFrom c (int a) = drop a c"
  by (simp add: sliceFrom_def relIndex_def min_def)

lemma take_append_slice:
  assumes "a \<le> b" and "b \<le> length c"
  shows "take a c @ slice c (int a) (int b) = take b c"
proof -
  from assms(1) have "take b c = take (a + (b - a)) c" by simp
  also have "\<dots> = take a c @ take (b - a) (drop a c)" by (rule take_add)
  finally show ?thesis using assms by (simp add: slice_nat)
qed

lemma rangeStep_fst:
  assumes that: "rstart r = int a" "rend r = int b" and "a \<le> b" and "b \<le> length c"
  shows "fst (rangeStep V r (take b c @ w, fk)) = take a c @ pieceFor V c r @ w"
proof -
  let ?c1 = "take b c @ w"
  from assms have l: "length (take b c) = b" by simp
  have s1: "slice ?c1 0 (int a) = take a c"
    using assms by (simp add: slice_def relIndex_def Let_def min_def)
  have s2: "sliceFrom ?c1 (int b) = w"
    using assms by (simp add: sliceFrom_nat)
  have s3: "take a c @ inside c r = take b c"
    using take_append_slice [OF assms(3,4)] that by (simp add: inside_def)
  show ?thesis
  proof (cases "getProp V (rkey r)")
    case None
    then show ?thesis using s1 s2 that by (simp add: rangeStep_def pieceFor_def)
  next
    case (Some v)
    then show ?thesis using s1 s2 s3 that by (simp add: rangeStep_def pieceFor_def)
  qed
qed

lemma fold_rangeStep_fst:
  "chained off rs (length c) \<Longrightarrow>
     fst (fold (rangeStep V) (rev rs) (c, fk)) =
       take off c @ weave (outsideFrom c (int off) rs) (map (pieceFor V c) rs)"
proof (induction rs arbitrary: off)
  case Nil
  then show ?case by (simp add: sliceFrom_nat)
next
  case (Cons r rs)
  from Cons.prems obtain a b where ab: "rstart r = int a" "rend r = int b"
    and le: "off \<le> a" "a \<le> b" and ch: "chained b rs (length c)"
    by (cases "rstart r"; cases "rend r") auto
  from chained_le [OF ch] have bl: "b \<le> length c" .
  let ?w = "weave (outsideFrom c (int b) rs) (map (pieceFor V c) rs)"
  obtain c1 fk1 where st: "fold (rangeStep V) (rev rs) (c, fk) = (c1, fk1)"
    by (cases "fold (rangeStep V) (rev rs) (c, fk)")
  with Cons.IH [OF ch] have c1: "c1 = take b c @ ?w" by simp
  have "fst (fold (rangeStep V) (rev (r # rs)) (c, fk)) = fst (rangeStep V r (take b c @ ?w, fk1))"
    using st c1 by simp
  also have "\<dots> = take a c @ pieceFor V c r @ ?w"
    by (rule rangeStep_fst [OF ab le(2) bl])
  also have "take a c = take off c @ slice c (int off) (int a)"
    using take_append_slice [of off a c] le bl by simp
  finally show ?case using ab by simp
qed

lemma rangeStep_snd:
  "set (snd (rangeStep V r (c, fk))) = set fk \<union> (if hasProp V (rkey r) then {rkey r} else {})"
  by (auto simp: rangeStep_def hasProp_def split: option.splits)

lemma fold_rangeStep_snd:
  "set (snd (fold (rangeStep V) rs (c, fk))) = set fk \<union> {k \<in> rkey ` set rs. hasProp V k}"
proof (induction rs arbitrary: c fk)
  case Nil
  then show ?case by simp
next
  case (Cons r rs)
  obtain c1 fk1 where st: "rangeStep V r (c, fk) = (c1, fk1)" by (cases "rangeStep V r (c, fk)")
  with rangeStep_snd [of V r c fk] have "set fk1 = set fk \<union> (if hasProp V (rkey r) then {rkey r} else {})"
    by simp
  with Cons.IH [of c1 fk1] st show ?case by auto
qed

lemma newKeyStep_cases:
  "fst p \<in> set fk \<Longrightarrow> newKeyStep fk p contents = contents"
  "fst p \<notin> set fk \<Longrightarrow> atEnd p \<Longrightarrow> newKeyStep fk p contents = contents @ formatProp p"
  "fst p \<notin> set fk \<Longrightarrow> \<not> atEnd p \<Longrightarrow> newKeyStep fk p contents = formatProp p @ contents"
  by (cases p; simp add: newKeyStep_def atEnd_def formatProp_def)+

lemma fold_newKeyStep:
  "fold (newKeyStep fk) ps contents =
     concat (map formatProp (rev (filter (\<lambda>p. \<not> atEnd p) (filter (\<lambda>p. fst p \<notin> set fk) ps))))
     @ contents
     @ concat (map formatProp (filter atEnd (filter (\<lambda>p. fst p \<notin> set fk) ps)))"
proof (induction ps arbitrary: contents)
  case Nil
  then show ?case by simp
next
  case (Cons p ps)
  have step: "fold (newKeyStep fk) (p # ps) contents = fold (newKeyStep fk) ps (newKeyStep fk p contents)"
    by simp
  consider (found) "fst p \<in> set fk" | (long) "fst p \<notin> set fk" "atEnd p"
    | (short) "fst p \<notin> set fk" "\<not> atEnd p" by blast
  then show ?case
  proof cases
    case found
    then show ?thesis unfolding step newKeyStep_cases(1) [OF found] Cons.IH by simp
  next
    case long
    then show ?thesis unfolding step newKeyStep_cases(2) [OF long] Cons.IH by simp
  next
    case short
    then show ?thesis unfolding step newKeyStep_cases(3) [OF short] Cons.IH by simp
  qed
qed

section \<open>Ranges of parsed contents\<close>

lemma occursAt_bound: "occursAt pat s j \<Longrightarrow> j + length pat \<le> length s"
  by (simp add: occursAt_def)

lemma rangeAt_simps [simp]:
  "rstart (rangeAt c p e) = p" "rend (rangeAt c p e) = e + 4"
  by (simp_all add: rangeAt_def Let_def length_suffix)

lemma scanRanges_chained:
  "i \<le> length c \<Longrightarrow> chained i (scanRanges c (int i)) (length c)"
proof (induction "length c - i" arbitrary: i rule: less_induct)
  case less
  from occ_cases [of i prefix c]
  consider (none) "\<forall>j\<ge>i. \<not> occursAt prefix c j" | (some) p where "firstOcc prefix c i p"
    by blast
  then show ?case
  proof cases
    case none
    with less.prems show ?thesis by (simp add: scanRanges_none1)
  next
    case some
    from occ_cases [of p suffix c]
    consider (unterminated) "\<forall>j\<ge>p. \<not> occursAt suffix c j" | (closed) e where "firstOcc suffix c p e"
      by blast
    then show ?thesis
    proof cases
      case unterminated
      with some less.prems show ?thesis by (simp add: scanRanges_none2)
    next
      case closed
      from some have ip: "i \<le> p" by (simp add: firstOcc_def)
      from closed have pe: "p \<le> e" and el: "e + 4 \<le> length c"
        by (auto simp: firstOcc_def length_suffix dest: occursAt_bound)
      from ip pe el have "length c - (e + 4) < length c - i" by simp
      from less.hyps [OF this el] have "chained (e + 4) (scanRanges c (int (e + 4))) (length c)" .
      with ip pe show ?thesis
        by (simp add: scanRanges_step [OF some closed] nat_add_distrib)
    qed
  qed
qed

lemma weave_outside_inside:
  "chained off rs (length c) \<Longrightarrow>
     take off c @ weave (outsideFrom c (int off) rs) (map (inside c) rs) = c"
proof (induction rs arbitrary: off)
  case Nil
  then show ?case by (simp add: sliceFrom_nat)
next
  case (Cons r rs)
  from Cons.prems obtain a b where ab: "rstart r = int a" "rend r = int b"
    and le: "off \<le> a" "a \<le> b" and ch: "chained b rs (length c)"
    by (cases "rstart r"; cases "rend r") auto
  from chained_le [OF ch] have bl: "b \<le> length c" .
  have f1: "take off c @ slice c (int off) (int a) = take a c"
    using take_append_slice [of off a c] le bl by simp
  have f2: "take a c @ inside c r = take b c"
    using take_append_slice [OF le(2) bl] ab by (simp add: inside_def)
  have "take off c @ slice c (int off) (int a) @ inside c r
      = (take off c @ slice c (int off) (int a)) @ inside c r" by simp
  also have "\<dots> = take b c" by (simp only: f1 f2)
  finally have "take off c @ slice c (int off) (int a) @ inside c r = take b c" .
  then have "take off c @ weave (outsideFrom c (int off) (r # rs)) (map (inside c) (r # rs))
      = take b c @ weave (outsideFrom c (int b) rs) (map (inside c) rs)"
    using ab by simp
  with Cons.IH [OF ch] show ?case by simp
qed

lemma set_ownKeys: "set (ownKeys ps) = set ps"
  by (auto simp: ownKeys_def)

lemma hasProp_iff: "hasProp ps k \<longleftrightarrow> k \<in> fst ` set ps"
  by (simp add: hasProp_def getProp_def map_of_eq_None_iff)

lemma getContentsFromLookup_eq:
  "getContentsFromLookup lk =
     concat (map formatProp (rev (filter (\<lambda>p. \<not> atEnd p) (newKeys lk))))
     @ rewriteRanges lk
     @ concat (map formatProp (filter atEnd (newKeys lk)))"
proof -
  obtain c1 fk1 where st: "fold (rangeStep (vals lk)) (rev (ranges lk)) (original lk, []) = (c1, fk1)"
    by (cases "fold (rangeStep (vals lk)) (rev (ranges lk)) (original lk, [])")
  from fold_rangeStep_snd [of "vals lk" "rev (ranges lk)" "original lk" "[]"] st
  have fk: "set fk1 = {k \<in> rkey ` set (ranges lk). hasProp (vals lk) k}" by simp
  have "filter (\<lambda>p. fst p \<notin> set fk1) (ownKeys (vals lk)) = newKeys lk"
    unfolding newKeys_def
    by (rule filter_cong [OF refl]) (auto simp: fk set_ownKeys hasProp_iff)
  then show ?thesis
    by (simp only: getContentsFromLookup_def st fold_newKeyStep rewriteRanges_def prod.case fst_conv)
qed

lemma parsed_ranges [simp]: "ranges (getCommentValueLookup c) = scanRanges c 0"
  and parsed_original [simp]: "original (getCommentValueLookup c) = c"
  and parsed_vals: "vals (getCommentValueLookup c) = setAll (scanRanges c 0) []"
  by (simp_all add: getCommentValueLookup_eq)

lemma rewriteRanges_parsed:
  "rewriteRanges ((getCommentValueLookup c)\<lparr>vals := V\<rparr>) =
     weave (outsideFrom c 0 (scanRanges c 0)) (map (pieceFor V c) (scanRanges c 0))"
  using fold_rangeStep_fst [OF scanRanges_chained [of 0 c], of V "[]"]
  by (simp add: rewriteRanges_def)

lemma contents_woven:
  "c = weave (outsideFrom c 0 (scanRanges c 0)) (map (inside c) (scanRanges c 0))"
  using weave_outside_inside [OF scanRanges_chained [of 0 c]] by simp

section \<open>Reading back what was parsed\<close>

lemma getProp_setProp:
  "getProp (setProp ps k v) k' = (if k' = k then Some v else getProp ps k')"
  by (induction ps) (auto simp: getProp_def)

lemma keys_setProp: "fst ` set (setProp ps k v) = insert k (fst ` set ps)"
proof (induction ps)
  case Nil
  then show ?case by simp
next
  case (Cons p ps)
  then show ?case by (cases p) (simp add: insert_commute)
qed

lemma keys_setAll: "fst ` set (setAll rs ps) = rkey ` set rs \<union> fst ` set ps"
proof (induction rs arbitrary: ps)
  case Nil
  then show ?case by (simp add: setAll_def)
next
  case (Cons r rs)
  have "setAll (r # rs) ps = setAll rs (setProp ps (rkey r) (rvalue r))" by (simp add: setAll_def)
  then show ?case by (simp add: Cons.IH keys_setProp)
qed

lemma getProp_setAll_notin:
  "k \<notin> rkey ` set rs \<Longrightarrow> getProp (setAll rs ps) k = getProp ps k"
proof (induction rs arbitrary: ps)
  case Nil
  then show ?case by (simp add: setAll_def)
next
  case (Cons r rs)
  have "setAll (r # rs) ps = setAll rs (setProp ps (rkey r) (rvalue r))" by (simp add: setAll_def)
  with Cons show ?case by (auto simp: getProp_setProp)
qed

lemma consistentKeys_subset:
  "consistentKeys ys \<Longrightarrow> set xs \<subseteq> set ys \<Longrightarrow> consistentKeys xs"
  unfolding consistentKeys_def by blast

lemma consistentKeysD:
  "consistentKeys rs \<Longrightarrow> r \<in> set rs \<Longrightarrow> r' \<in> set rs \<Longrightarrow> rkey r = rkey r' \<Longrightarrow> rvalue r = rvalue r'"
  unfolding consistentKeys_def by blast

lemma consistentKeys_butlast: "consistentKeys (xs @ [x]) \<Longrightarrow> consistentKeys xs"
  by (erule consistentKeys_subset) auto

lemma setAll_snoc: "setAll (rs @ [x]) ps = setProp (setAll rs ps) (rkey x) (rvalue x)"
  by (simp add: setAll_def)

lemma getProp_setAll_in:
  "r \<in> set rs \<Longrightarrow> consistentKeys rs \<Longrightarrow> getProp (setAll rs ps) (rkey r) = Some (rvalue r)"
proof (induction rs rule: rev_induct)
  case Nil
  then show ?case by simp
next
  case (snoc x xs)
  show ?case
  proof (cases "rkey r = rkey x")
    case True
    have "rvalue r = rvalue x"
      by (rule consistentKeysD [OF snoc.prems(2) snoc.prems(1) _ True]) simp
    with True show ?thesis by (simp add: setAll_snoc getProp_setProp)
  next
    case False
    with snoc.prems(1) have "r \<in> set xs" by auto
    from snoc.IH [OF this consistentKeys_butlast [OF snoc.prems(2)]] False
    show ?thesis by (simp add: setAll_snoc getProp_setProp)
  qed
qed

lemma roundtrip_consistent:
  assumes "consistentKeys (ranges (getCommentValueLookup contents))"
  shows "getContentsFromLookup (getCommentValueLookup contents) = contents"
proof -
  let ?lk = "getCommentValueLookup contents"
  let ?rs = "scanRanges contents 0"
  from assms have cons: "consistentKeys ?rs" by simp
  have pieces: "map (pieceFor (setAll ?rs []) contents) ?rs = map (inside contents) ?rs"
    by (rule map_cong [OF refl]) (simp add: pieceFor_def getProp_setAll_in [OF _ cons])
  have "rewriteRanges ?lk = rewriteRanges (?lk\<lparr>vals := setAll ?rs []\<rparr>)"
    by (simp add: getCommentValueLookup_eq)
  also have "\<dots> = weave (outsideFrom contents 0 ?rs) (map (pieceFor (setAll ?rs []) contents) ?rs)"
    by (rule rewriteRanges_parsed)
  also have "\<dots> = contents" unfolding pieces by (rule contents_woven [symmetric])
  finally have rw: "rewriteRanges ?lk = contents" .
  have "fst ` set (vals ?lk) = rkey ` set ?rs" by (simp add: parsed_vals keys_setAll)
  then have "\<forall>p\<in>set (ownKeys (vals ?lk)). fst p \<in> rkey ` set ?rs"
    by (auto simp: set_ownKeys)
  then have "newKeys ?lk = []"
    by (simp add: newKeys_def filter_empty_conv)
  with rw show ?thesis by (simp add: getContentsFromLookup_eq)
qed

section \<open>Occurrences of the markers\<close>

lemma occursAt_nth:
  "occursAt pat s j \<longleftrightarrow> j + length pat \<le> length s \<and> (\<forall>m<length pat. s ! (j + m) = pat ! m)"
proof (cases "j + length pat \<le> length s")
  case False
  then show ?thesis by (simp add: occursAt_def)
next
  case True
  then have len: "length (take (length pat) (drop j s)) = length pat" by simp
  have "take (length pat) (drop j s) = pat \<longleftrightarrow> (\<forall>m<length pat. s ! (j + m) = pat ! m)"
  proof
    assume e: "take (length pat) (drop j s) = pat"
    show "\<forall>m<length pat. s ! (j + m) = pat ! m"
    proof (intro allI impI)
      fix m assume m: "m < length pat"
      then have "take (length pat) (drop j s) ! m = s ! (j + m)" using True by simp
      with e show "s ! (j + m) = pat ! m" by simp
    qed
  next
    assume a: "\<forall>m<length pat. s ! (j + m) = pat ! m"
    show "take (length pat) (drop j s) = pat"
    proof (rule nth_equalityI)
      show "length (take (length pat) (drop j s)) = length pat" by (rule len)
      fix m assume "m < length (take (length pat) (drop j s))"
      then have m: "m < length pat" by simp
      then have "take (length pat) (drop j s) ! m = s ! (j + m)" using True by simp
      with a m show "take (length pat) (drop j s) ! m = pat ! m" by simp
    qed
  qed
  with True show ?thesis by (simp add: occursAt_def)
qed

lemma occursAt_append_shift:
  "occursAt pat (a @ c) (length a + j) \<longleftrightarrow> occursAt pat c j"
  by (simp add: occursAt_def)

lemma occursAt_append_left:
  "j + length pat \<le> length a \<Longrightarrow> occursAt pat (a @ c) j \<longleftrightarrow> occursAt pat a j"
  by (simp add: occursAt_def)

lemma firstOcc_append_shift:
  "firstOcc pat (a @ c) (length a + i) (length a + j) \<longleftrightarrow> firstOcc pat c i j"
proof
  assume l: "firstOcc pat (a @ c) (length a + i) (length a + j)"
  show "firstOcc pat c i j"
    unfolding firstOcc_def
  proof (intro conjI allI impI)
    from l show "i \<le> j" by (simp add: firstOcc_def)
    from l show "occursAt pat c j" by (simp add: firstOcc_def occursAt_append_shift)
    fix m assume "i \<le> m \<and> m < j"
    then have "length a + i \<le> length a + m \<and> length a + m < length a + j" by simp
    with l have "\<not> occursAt pat (a @ c) (length a + m)" unfolding firstOcc_def by blast
    then show "\<not> occursAt pat c m" by (simp add: occursAt_append_shift)
  qed
next
  assume r: "firstOcc pat c i j"
  show "firstOcc pat (a @ c) (length a + i) (length a + j)"
    unfolding firstOcc_def
  proof (intro conjI allI impI)
    from r show "length a + i \<le> length a + j" by (simp add: firstOcc_def)
    from r show "occursAt pat (a @ c) (length a + j)" by (simp add: firstOcc_def occursAt_append_shift)
    fix m assume m: "length a + i \<le> m \<and> m < length a + j"
    define m' where "m' = m - length a"
    with m have m': "m = length a + m'" "i \<le> m'" "m' < j" by auto
    with r have "\<not> occursAt pat c m'" unfolding firstOcc_def by blast
    with m' show "\<not> occursAt pat (a @ c) m" by (simp add: occursAt_append_shift)
  qed
qed

lemma none_append_shift:
  "(\<forall>j\<ge>length a + i. \<not> occursAt pat (a @ c) j) \<longleftrightarrow> (\<forall>j\<ge>i. \<not> occursAt pat c j)"
proof
  assume l: "\<forall>j\<ge>length a + i. \<not> occursAt pat (a @ c) j"
  show "\<forall>j\<ge>i. \<not> occursAt pat c j"
  proof (intro allI impI)
    fix j assume "i \<le> j"
    then have "length a + i \<le> length a + j" by simp
    with l have "\<not> occursAt pat (a @ c) (length a + j)" by blast
    then show "\<not> occursAt pat c j" by (simp add: occursAt_append_shift)
  qed
next
  assume r: "\<forall>j\<ge>i. \<not> occursAt pat c j"
  show "\<forall>j\<ge>length a + i. \<not> occursAt pat (a @ c) j"
  proof (intro allI impI)
    fix j assume "length a + i \<le> j"
    define j' where "j' = j - length a"
    with \<open>length a + i \<le> j\<close> have j': "j = length a + j'" "i \<le> j'" by auto
    with r have "\<not> occursAt pat c j'" by blast
    with j' show "\<not> occursAt pat (a @ c) j" by (simp add: occursAt_append_shift)
  qed
qed

lemma prefix_space: "\<forall>m<14. prefix ! m = CHR '' '' \<longrightarrow> m = 4"
  by code_simp

lemma prefix_nl: "\<forall>m<14. prefix ! m = CHR 0x0A \<longrightarrow> m = 0"
  by code_simp

lemma prefix_chars: "prefix ! 0 = CHR 0x0A" "prefix ! 5 = CHR ''@''"
  by (simp_all add: prefix_def)

lemma suffix_chars:
  "suffix ! 0 = CHR '' ''" "suffix ! 1 = CHR ''*''" "suffix ! 2 = CHR ''/''" "suffix ! 3 = CHR 0x0A"
  by (simp_all add: suffix_def)

lemma occursAt_prefix_nth:
  "occursAt prefix s p \<Longrightarrow> m < 14 \<Longrightarrow> s ! (p + m) = prefix ! m"
  by (simp add: occursAt_nth length_prefix)

lemma occursAt_suffix_nth:
  assumes "occursAt suffix s e"
  shows "s ! e = CHR '' ''" "s ! (e + 1) = CHR ''*''" "s ! (e + 2) = CHR ''/''"
    "s ! (e + 3) = CHR 0x0A" "e + 4 \<le> length s"
proof -
  from assms have a: "\<forall>m<4. s ! (e + m) = suffix ! m" and b: "e + 4 \<le> length s"
    by (simp_all add: occursAt_nth length_suffix)
  from a [rule_format, of 0] show "s ! e = CHR '' ''" by (simp add: suffix_def)
  from a [rule_format, of 1] show "s ! (e + 1) = CHR ''*''" by (simp add: suffix_def)
  from a [rule_format, of 2] show "s ! (e + 2) = CHR ''/''" by (simp add: suffix_def)
  from a [rule_format, of 3] show "s ! (e + 3) = CHR 0x0A" by (simp add: suffix_def)
  from b show "e + 4 \<le> length s" .
qed

text \<open>The closing marker cannot begin inside an opening marker.\<close>

lemma suffix_after_prefix:
  assumes p: "occursAt prefix s p" and e: "occursAt suffix s e" and pe: "p \<le> e"
  shows "p + 14 \<le> e"
proof (rule ccontr)
  assume "\<not> p + 14 \<le> e"
  with pe obtain m where m: "e = p + m" "m < 14" by (metis le_Suc_ex not_le nat_add_left_cancel_less)
  from occursAt_suffix_nth(1) [OF e] occursAt_prefix_nth [OF p m(2)] m(1)
  have "prefix ! m = CHR '' ''" by simp
  with prefix_space m(2) have m4: "m = 4" by blast
  from occursAt_suffix_nth(2) [OF e] m(1) m4 have "s ! (p + 5) = CHR ''*''"
    by (simp add: add.commute)
  moreover from occursAt_prefix_nth [OF p, of 5] have "s ! (p + 5) = CHR ''@''"
    by (simp add: prefix_chars)
  ultimately show False by simp
qed

lemma occursAt_space: "occursAt '' '' s j \<longleftrightarrow> j < length s \<and> s ! j = CHR '' ''"
  by (auto simp: occursAt_nth)

section \<open>Scanning behind a prefix of the contents\<close>

lemma slice_nat_gen:
  "slice c (int a) (int b) =
     take (min b (length c) - min a (length c)) (drop (min a (length c)) c)"
  by (simp add: slice_def relIndex_def Let_def min_def)

lemma slice_append_shift:
  "slice (a @ c) (int (length a + x)) (int (length a + y)) = slice c (int x) (int y)"
proof -
  have m: "min (length a + x) (length a + length c) = length a + min x (length c)" for x
    by simp
  show ?thesis
    unfolding slice_nat_gen by (simp add: m)
qed

lemma sliceFrom_append_shift:
  "sliceFrom (a @ c) (int (length a + x)) = sliceFrom c (int x)"
  unfolding sliceFrom_nat by simp

lemma first_space:
  assumes p: "firstOcc prefix c i p" and e: "firstOcc suffix c p e"
  obtains ke where "firstOcc '' '' c (p + 14) ke" and "ke \<le> e"
proof -
  from p e have pe: "p + 14 \<le> e"
    by (auto simp: firstOcc_def intro: suffix_after_prefix)
  from e have oe: "occursAt suffix c e" by (simp add: firstOcc_def)
  from occursAt_suffix_nth(1,5) [OF oe] have sp: "occursAt '' '' c e"
    by (simp add: occursAt_space)
  from occ_cases [of "p + 14" "'' ''" c] pe sp
  obtain ke where ke: "firstOcc '' '' c (p + 14) ke" by blast
  have "ke \<le> e"
  proof (rule ccontr)
    assume "\<not> ke \<le> e"
    with pe have "p + 14 \<le> e \<and> e < ke" by simp
    with ke sp show False unfolding firstOcc_def by blast
  qed
  with ke that show ?thesis by blast
qed

lemma rangeAt_nat:
  assumes "firstOcc '' '' c (p + 14) ke"
  shows "rangeAt c (int p) (int e) =
     \<lparr>rkey = slice c (int (p + 14)) (int ke), rvalue = slice c (int (ke + 1)) (int e),
      rstart = int p, rend = int (e + 4)\<rparr>"
proof -
  have "indexOf c '' '' (int (p + 14)) = int ke"
    by (rule indexOf_first [OF assms]) simp
  then have "indexOf c '' '' (int p + int (length prefix)) = int ke"
    by (simp add: length_prefix)
  then show ?thesis
    by (simp add: rangeAt_def Let_def length_prefix length_suffix add.commute)
qed

lemma rangeAt_shift:
  assumes p: "firstOcc prefix c i p" and e: "firstOcc suffix c p e"
  shows "rangeAt (a @ c) (int (length a + p)) (int (length a + e)) =
     shiftRange (length a) (rangeAt c (int p) (int e))"
proof -
  from first_space [OF p e] obtain ke where ke: "firstOcc '' '' c (p + 14) ke" by blast
  then have ke': "firstOcc '' '' (a @ c) (length a + p + 14) (length a + ke)"
    using firstOcc_append_shift [of "'' ''" a c "p + 14" ke] by (simp add: add.assoc)
  have k: "slice (a @ c) (int (length a + p + 14)) (int (length a + ke))
      = slice c (int (p + 14)) (int ke)"
    using slice_append_shift [of a c "p + 14" ke] by (simp add: add.assoc)
  have v: "slice (a @ c) (int (length a + ke + 1)) (int (length a + e))
      = slice c (int (ke + 1)) (int e)"
    using slice_append_shift [of a c "ke + 1" e] by (simp add: add.assoc)
  show ?thesis
    unfolding rangeAt_nat [OF ke] rangeAt_nat [OF ke'] k v
    by (simp add: shiftRange_def)
qed

lemma scanRanges_shift:
  "scanRanges (a @ c) (int (length a + i)) = map (shiftRange (length a)) (scanRanges c (int i))"
proof (induction "length c - i" arbitrary: i rule: less_induct)
  case less
  from occ_cases [of i prefix c]
  consider (none) "\<forall>j\<ge>i. \<not> occursAt prefix c j" | (some) p where "firstOcc prefix c i p"
    by blast
  then show ?case
  proof cases
    case none
    then have "\<forall>j\<ge>length a + i. \<not> occursAt prefix (a @ c) j"
      by (simp only: none_append_shift)
    then have "scanRanges (a @ c) (int (length a + i)) = []" by (rule scanRanges_none1)
    moreover from none have "scanRanges c (int i) = []" by (rule scanRanges_none1)
    ultimately show ?thesis by (simp only: list.map)
  next
    case some
    then have some': "firstOcc prefix (a @ c) (length a + i) (length a + p)"
      by (simp only: firstOcc_append_shift)
    from occ_cases [of p suffix c]
    consider (unterminated) "\<forall>j\<ge>p. \<not> occursAt suffix c j"
      | (closed) e where "firstOcc suffix c p e"
      by blast
    then show ?thesis
    proof cases
      case unterminated
      then have "\<forall>j\<ge>length a + p. \<not> occursAt suffix (a @ c) j"
        by (simp only: none_append_shift)
      with some' have "scanRanges (a @ c) (int (length a + i)) = []" by (rule scanRanges_none2)
      moreover from some unterminated have "scanRanges c (int i) = []" by (rule scanRanges_none2)
      ultimately show ?thesis by (simp only: list.map)
    next
      case closed
      then have closed': "firstOcc suffix (a @ c) (length a + p) (length a + e)"
        by (simp only: firstOcc_append_shift)
      from some have ip: "i \<le> p" by (simp add: firstOcc_def)
      from closed have pe: "p \<le> e" and el: "e + 4 \<le> length c"
        by (auto simp: firstOcc_def length_suffix dest: occursAt_bound)
      from ip pe el have "length c - (e + 4) < length c - i" by simp
      from less.hyps [OF this]
      have IH: "scanRanges (a @ c) (int (length a + (e + 4)))
          = map (shiftRange (length a)) (scanRanges c (int (e + 4)))" .
      have "scanRanges (a @ c) (int (length a + i))
          = rangeAt (a @ c) (int (length a + p)) (int (length a + e))
            # scanRanges (a @ c) (int (length a + e + 4))"
        by (rule scanRanges_step [OF some' closed'])
      also have "length a + e + 4 = length a + (e + 4)" by simp
      also note IH
      also note rangeAt_shift [OF some closed]
      finally show ?thesis by (simp only: scanRanges_step [OF some closed] list.map)
    qed
  qed
qed

section \<open>The text outside the blocks\<close>

lemma fold_deleteProp:
  "fold (\<lambda>key ps. deleteProp ps key) ks ps = filter (\<lambda>p. fst p \<notin> set ks) ps"
proof (induction ks arbitrary: ps)
  case Nil
  then show ?case by simp
next
  case (Cons k ks)
  have "filter (\<lambda>p. fst p \<notin> set ks) (filter (\<lambda>p. fst p \<noteq> k) ps)
      = filter (\<lambda>p. fst p \<notin> set (k # ks)) ps"
    by (induction ps) auto
  with Cons.IH [of "deleteProp ps k"] show ?case by (simp add: deleteProp_def)
qed

lemma vals_deleteAllKeys: "vals (deleteAllKeys lk) = []"
proof -
  have "filter (\<lambda>p. fst p \<notin> set (map fst (ownKeys (vals lk)))) (vals lk) = []"
    by (simp add: filter_empty_conv set_ownKeys)
  then show ?thesis by (simp add: deleteAllKeys_def fold_deleteProp)
qed

lemma deleteAllKeys_eq: "deleteAllKeys lk = lk\<lparr>vals := []\<rparr>"
  using vals_deleteAllKeys [of lk] by (simp add: deleteAllKeys_def)

lemma weave_empty_pieces: "weave gs (map (\<lambda>r. []) rs) = concat gs"
proof (induction gs arbitrary: rs)
  case Nil
  then show ?case by (induction rs) simp_all
next
  case (Cons g gs)
  then show ?case by (cases rs) simp_all
qed

lemma ownKeys_Nil: "ownKeys [] = []"
  by (simp add: ownKeys_def)

lemma strippedContents_eq:
  "strippedContents c = concat (outsideFrom c 0 (scanRanges c 0))"
proof -
  let ?lk = "(getCommentValueLookup c)\<lparr>vals := []\<rparr>"
  have n: "newKeys ?lk = []" by (simp add: newKeys_def ownKeys_Nil)
  have p: "map (pieceFor [] c) (scanRanges c 0) = map (\<lambda>r. []) (scanRanges c 0)"
    by (simp add: pieceFor_def getProp_def)
  have "strippedContents c = getContentsFromLookup ?lk"
    by (simp add: strippedContents_def deleteAllKeys_eq)
  also have "\<dots> = rewriteRanges ?lk" by (simp add: getContentsFromLookup_eq n)
  also have "\<dots> = weave (outsideFrom c 0 (scanRanges c 0)) (map (pieceFor [] c) (scanRanges c 0))"
    by (rule rewriteRanges_parsed)
  finally show ?thesis by (simp only: p weave_empty_pieces)
qed

lemma noMarker_iff: "noMarker s \<longleftrightarrow> (\<forall>j. \<not> occursAt prefix s j)"
proof
  assume n: "noMarker s"
  show "\<forall>j. \<not> occursAt prefix s j"
  proof (rule ccontr)
    assume "\<not> (\<forall>j. \<not> occursAt prefix s j)"
    with occ_cases [of 0 prefix s] obtain j where "firstOcc prefix s 0 j" by auto
    from indexOf_first [OF this prefix_ne] n show False by (simp add: noMarker_def)
  qed
next
  assume "\<forall>j. \<not> occursAt prefix s j"
  then have "\<forall>j\<ge>0. \<not> occursAt prefix s j" by simp
  from indexOf_none [OF this prefix_ne] show "noMarker s" by (simp add: noMarker_def)
qed

lemma noMarker_appendD:
  assumes "noMarker (x @ y)"
  shows "noMarker x" and "noMarker y"
proof -
  show "noMarker x"
    unfolding noMarker_iff
  proof (intro allI notI)
    fix j assume o: "occursAt prefix x j"
    then have "j + length prefix \<le> length x" by (rule occursAt_bound)
    from occursAt_append_left [OF this, of y] o have "occursAt prefix (x @ y) j" by simp
    with assms show False by (simp add: noMarker_iff)
  qed
  show "noMarker y"
    unfolding noMarker_iff
  proof (intro allI notI)
    fix j assume "occursAt prefix y j"
    then have "occursAt prefix (x @ y) (length x + j)" by (simp only: occursAt_append_shift)
    with assms show False by (simp add: noMarker_iff)
  qed
qed

lemma noMarker_Nil: "noMarker []"
  by (simp add: noMarker_iff occursAt_def prefix_def)

lemma strippedContents_noMarker:
  assumes "noMarker g"
  shows "strippedContents g = g"
proof -
  from assms have "\<forall>j\<ge>0. \<not> occursAt prefix g j" by (simp add: noMarker_iff)
  from scanRanges_none1 [OF this] show ?thesis
    by (simp add: strippedContents_eq sliceFrom_def relIndex_def)
qed

text \<open>An opening marker cannot begin in text free of it and run into text that
  begins with a line feed.\<close>

lemma no_marker_before:
  assumes g: "noMarker g" and x: "x = [] \<or> hd x = CHR 0x0A" and j: "j < length g"
  shows "\<not> occursAt prefix (g @ x) j"
proof
  assume o: "occursAt prefix (g @ x) j"
  show False
  proof (cases "j + 14 \<le> length g")
    case True
    with occursAt_append_left [of j prefix g x] o have "occursAt prefix g j"
      by (simp add: length_prefix)
    with g show False by (simp add: noMarker_iff)
  next
    case False
    define m where "m = length g - j"
    with False j have m: "0 < m" "m < 14" "j + m = length g" by simp_all
    from o have "j + 14 \<le> length g + length x" by (simp add: occursAt_def length_prefix)
    with False have xn: "x \<noteq> []" by auto
    with x have "hd x = CHR 0x0A" by simp
    with xn have "(g @ x) ! (j + m) = CHR 0x0A" by (simp add: m(3) nth_append hd_conv_nth)
    with occursAt_prefix_nth [OF o m(2)] have "prefix ! m = CHR 0x0A" by simp
    with prefix_nl m(2) have "m = 0" by blast
    with m(1) show False by simp
  qed
qed

section \<open>A block behind text free of the opening marker\<close>

lemma indexOf_firstD:
  assumes "indexOf s pat 0 = int j"
  shows "firstOcc pat s 0 j"
proof -
  from assms have "searchFrom s pat 0 = int j" by (simp add: indexOf_def)
  with searchFrom_cases [of s pat 0] show ?thesis by auto
qed

lemma closedBlock_iff:
  "closedBlock b \<longleftrightarrow>
     occursAt prefix b 0 \<and> 4 \<le> length b \<and> firstOcc suffix b 0 (length b - 4)"
proof
  assume c: "closedBlock b"
  then have "indexOf b prefix 0 = int 0" by (simp add: closedBlock_def)
  from indexOf_firstD [OF this] have p: "occursAt prefix b 0" by (simp add: firstOcc_def)
  from c have e: "indexOf b suffix 0 + 4 = int (length b)" by (simp add: closedBlock_def)
  from p have "14 \<le> length b" by (simp add: occursAt_def length_prefix)
  with e have "indexOf b suffix 0 = int (length b - 4)" by simp
  from indexOf_firstD [OF this] p \<open>14 \<le> length b\<close>
  show "occursAt prefix b 0 \<and> 4 \<le> length b \<and> firstOcc suffix b 0 (length b - 4)" by simp
next
  assume a: "occursAt prefix b 0 \<and> 4 \<le> length b \<and> firstOcc suffix b 0 (length b - 4)"
  then have "firstOcc prefix b 0 0" by (simp add: firstOcc_def)
  from indexOf_first [OF this prefix_ne] have p: "indexOf b prefix 0 = 0" by simp
  from a have "firstOcc suffix b 0 (length b - 4)" by simp
  from indexOf_first [OF this suffix_ne] have "indexOf b suffix 0 = int (length b - 4)" by simp
  with a p show "closedBlock b" by (simp add: closedBlock_def)
qed

lemma closedBlock_scan:
  assumes g: "noMarker g" and b: "closedBlock b"
  shows "scanRanges (g @ b @ rest) 0 =
     rangeAt (g @ b @ rest) (int (length g)) (int (length g + (length b - 4)))
     # map (shiftRange (length g + length b)) (scanRanges rest 0)"
proof -
  from b have pb: "occursAt prefix b 0" and lb: "4 \<le> length b"
    and sb: "firstOcc suffix b 0 (length b - 4)"
    by (simp_all add: closedBlock_iff)
  from pb have l14: "14 \<le> length b" by (simp add: occursAt_def length_prefix)
  then have bn: "b \<noteq> []" by auto
  from occursAt_prefix_nth [OF pb, of 0] bn have hd: "hd (b @ rest) = CHR 0x0A"
    by (cases b) (simp_all add: prefix_chars)
  have "occursAt prefix (b @ rest) 0"
    using occursAt_append_left [of 0 prefix b rest] pb l14 by (simp add: length_prefix)
  then have o1: "occursAt prefix (g @ b @ rest) (length g)"
    using occursAt_append_shift [of prefix g "b @ rest" 0] by simp
  have f1: "firstOcc prefix (g @ b @ rest) 0 (length g)"
    unfolding firstOcc_def
  proof (intro conjI allI impI)
    show "0 \<le> length g" by simp
    show "occursAt prefix (g @ b @ rest) (length g)" by (rule o1)
    fix m assume "0 \<le> m \<and> m < length g"
    then have "m < length g" by simp
    from no_marker_before [OF g _ this, of "b @ rest"] hd
    show "\<not> occursAt prefix (g @ b @ rest) m" by simp
  qed
  have f2': "firstOcc suffix (b @ rest) 0 (length b - 4)"
    unfolding firstOcc_def
  proof (intro conjI allI impI)
    show "0 \<le> length b - 4" by simp
    from sb have "occursAt suffix b (length b - 4)" by (simp add: firstOcc_def)
    with occursAt_append_left [of "length b - 4" suffix b rest] lb
    show "occursAt suffix (b @ rest) (length b - 4)" by (simp add: length_suffix)
    fix m assume m: "0 \<le> m \<and> m < length b - 4"
    with sb have "\<not> occursAt suffix b m" unfolding firstOcc_def by blast
    moreover from m have "m + length suffix \<le> length b" by (simp add: length_suffix)
    ultimately show "\<not> occursAt suffix (b @ rest) m"
      by (simp add: occursAt_append_left)
  qed
  have f2: "firstOcc suffix (g @ b @ rest) (length g) (length g + (length b - 4))"
    using firstOcc_append_shift [of suffix g "b @ rest" 0 "length b - 4"] f2' by simp
  have "scanRanges (g @ b @ rest) (int 0) =
      rangeAt (g @ b @ rest) (int (length g)) (int (length g + (length b - 4)))
      # scanRanges (g @ b @ rest) (int (length g + (length b - 4) + 4))"
    by (rule scanRanges_step [OF f1 f2])
  also from lb have "length g + (length b - 4) + 4 = length (g @ b) + 0" by simp
  also have "scanRanges (g @ b @ rest) (int (length (g @ b) + 0))
      = map (shiftRange (length (g @ b))) (scanRanges rest (int 0))"
    using scanRanges_shift [of "g @ b" rest 0] by simp
  finally show ?thesis by simp
qed

lemma chained_nonneg:
  assumes "chained off (r # rs) n"
  obtains s e where "rstart r = int s" "rend r = int e" "off \<le> s" "s \<le> e" "chained e rs n"
proof -
  from assms have a: "int off \<le> rstart r" "rstart r \<le> rend r" "chained (nat (rend r)) rs n"
    by simp_all
  then have "rstart r = int (nat (rstart r))" "rend r = int (nat (rend r))"
    "off \<le> nat (rstart r)" "nat (rstart r) \<le> nat (rend r)"
    by simp_all
  with a(3) that show ?thesis by blast
qed

lemma outsideFrom_shift:
  "chained off rs n \<Longrightarrow>
     outsideFrom (a @ c) (int (length a + off)) (map (shiftRange (length a)) rs)
       = outsideFrom c (int off) rs"
proof (induction rs arbitrary: off)
  case Nil
  then show ?case by (simp only: list.map outsideFrom.simps sliceFrom_append_shift)
next
  case (Cons r rs)
  from chained_nonneg [OF Cons.prems]
  obtain s e where se: "rstart r = int s" "rend r = int e" "off \<le> s" "s \<le> e" "chained e rs n"
    by blast
  have st: "rstart (shiftRange (length a) r) = int (length a + s)"
    and en: "rend (shiftRange (length a) r) = int (length a + e)"
    by (simp_all add: shiftRange_def se)
  have "outsideFrom (a @ c) (int (length a + off)) (map (shiftRange (length a)) (r # rs))
      = slice (a @ c) (int (length a + off)) (int (length a + s))
        # outsideFrom (a @ c) (int (length a + e)) (map (shiftRange (length a)) rs)"
    by (simp only: list.map outsideFrom.simps st en)
  also have "\<dots> = slice c (int off) (int s) # outsideFrom c (int e) rs"
    by (simp only: slice_append_shift Cons.IH [OF se(5)])
  finally show ?case by (simp only: outsideFrom.simps se)
qed

lemma strippedContents_block:
  assumes g: "noMarker g" and b: "closedBlock b"
  shows "strippedContents (g @ b @ rest) = g @ strippedContents rest"
proof -
  let ?X = "g @ b @ rest"
  let ?r = "rangeAt ?X (int (length g)) (int (length g + (length b - 4)))"
  from b have lb: "4 \<le> length b" by (simp add: closedBlock_iff)
  have st: "rstart ?r = int (length g)" by simp
  from lb have en: "rend ?r = int (length (g @ b) + 0)" by simp
  have ch: "chained 0 (scanRanges rest (int 0)) (length rest)"
    by (rule scanRanges_chained) simp
  have s1: "slice ?X 0 (int (length g)) = g"
    using slice_nat_gen [of ?X 0 "length g"] by simp
  have "outsideFrom ?X 0 (scanRanges ?X 0)
      = slice ?X 0 (int (length g))
        # outsideFrom ((g @ b) @ rest) (int (length (g @ b) + 0))
            (map (shiftRange (length (g @ b))) (scanRanges rest 0))"
    by (simp only: closedBlock_scan [OF g b] outsideFrom.simps st en append_assoc length_append)
  also have "\<dots> = g # outsideFrom rest 0 (scanRanges rest 0)"
    using outsideFrom_shift [OF ch, of "g @ b"] s1 by simp
  finally show ?thesis by (simp add: strippedContents_eq)
qed

section \<open>Escaping\<close>

lemma hasStarSlash_Cons:
  "hasStarSlash (a # xs) \<longleftrightarrow> (a = CHR ''*'' \<and> xs \<noteq> [] \<and> hd xs = CHR ''/'') \<or> hasStarSlash xs"
  by (cases xs) auto

lemma hasStarSlash_append:
  "hasStarSlash (xs @ ys) \<longleftrightarrow>
     hasStarSlash xs \<or> hasStarSlash ys
     \<or> (xs \<noteq> [] \<and> ys \<noteq> [] \<and> last xs = CHR ''*'' \<and> hd ys = CHR ''/'')"
proof (induction xs)
  case Nil
  then show ?case by simp
next
  case (Cons a xs)
  show ?case
  proof (cases xs)
    case Nil
    then show ?thesis by (cases ys) auto
  next
    case (Cons b zs)
    with Cons.IH show ?thesis by (simp add: hasStarSlash_Cons)
  qed
qed

lemma hasStarSlash_nthI:
  "Suc i < length xs \<Longrightarrow> xs ! i = CHR ''*'' \<Longrightarrow> xs ! Suc i = CHR ''/'' \<Longrightarrow> hasStarSlash xs"
proof (induction xs arbitrary: i)
  case Nil
  then show ?case by simp
next
  case (Cons a xs)
  show ?case
  proof (cases i)
    case 0
    with Cons.prems show ?thesis by (cases xs) auto
  next
    case (Suc j)
    with Cons.prems have "hasStarSlash xs" by (intro Cons.IH [of j]) simp_all
    then show ?thesis by (simp add: hasStarSlash_Cons)
  qed
qed

lemma escape_hd: "escape (b # rest) \<noteq> [] \<and> hd (escape (b # rest)) = b"
  by (cases rest) auto

lemma escape_clean: "\<not> hasStarSlash (escape v)"
proof (induction v rule: escape.induct)
  case (1 a b rest)
  show ?case
  proof (cases "a = CHR ''*'' \<and> b = CHR ''/''")
    case True
    with "1.IH"(1) show ?thesis by (simp add: hasStarSlash_Cons)
  next
    case False
    with "1.IH"(2) escape_hd [of b rest] show ?thesis
      by (auto simp: hasStarSlash_Cons)
  qed
qed simp_all

lemma escape_id: "escape v = v \<longleftrightarrow> \<not> hasStarSlash v"
proof (induction v rule: escape.induct)
  case (1 a b rest)
  then show ?case by auto
qed simp_all

section \<open>Formatted blocks\<close>

lemma formatValue_split:
  "formatValue k v = (prefix @ k) @ (CHR '' '' # escape v @ '' *'') @ [CHR ''/'', CHR 0x0A]"
  by (simp add: formatValue_def suffix_def)

lemma length_formatValue: "length (formatValue k v) = 14 + length k + 1 + length (escape v) + 4"
  by (simp add: formatValue_def length_prefix length_suffix)

lemma no_suffix_in_formatValue:
  assumes k: "CHR '' '' \<notin> set k" and m: "m < 14 + length k + 1 + length (escape v)"
  shows "\<not> occursAt suffix (formatValue k v) m"
proof
  let ?B = "formatValue k v"
  let ?Y = "CHR '' '' # escape v @ '' *''"
  assume o: "occursAt suffix ?B m"
  note c = occursAt_suffix_nth [OF o]
  consider (inPrefix) "m < 14" | (inKey) "14 \<le> m" "m < 14 + length k" | (later) "14 + length k \<le> m"
    by linarith
  then show False
  proof cases
    case inPrefix
    then have "?B ! m = prefix ! m" by (simp add: formatValue_def nth_append length_prefix)
    with c(1) prefix_space inPrefix have m4: "m = 4" by simp
    have "?B ! 5 = prefix ! 5" by (simp add: formatValue_def nth_append length_prefix)
    with c(2) m4 show False by (simp add: prefix_chars)
  next
    case inKey
    then have lt: "m - 14 < length k" by linarith
    with inKey have "?B ! m = k ! (m - 14)"
      by (simp add: formatValue_def nth_append length_prefix)
    moreover from lt have "k ! (m - 14) \<in> set k" by simp
    ultimately show False using c(1) k by simp
  next
    case later
    define q where "q = m - (14 + length k)"
    with later m have q: "m = length (prefix @ k) + q" "q \<le> length (escape v)"
      by (simp_all add: length_prefix)
    have ly: "length ?Y = length (escape v) + 3" by simp
    have n1: "?B ! (m + 1) = ?Y ! (q + 1)"
    proof -
      from q(2) ly have "q + 1 < length ?Y" by simp
      then have "(?Y @ [CHR ''/'', CHR 0x0A]) ! (q + 1) = ?Y ! (q + 1)" by (rule nth_append_left)
      then show ?thesis
        unfolding formatValue_split q(1) add.assoc nth_append_length_plus .
    qed
    have n2: "?B ! (m + 2) = ?Y ! (q + 2)"
    proof -
      from q(2) ly have "q + 2 < length ?Y" by simp
      then have "(?Y @ [CHR ''/'', CHR 0x0A]) ! (q + 2) = ?Y ! (q + 2)" by (rule nth_append_left)
      then show ?thesis
        unfolding formatValue_split q(1) add.assoc nth_append_length_plus .
    qed
    from q(2) ly have "Suc (q + 1) < length ?Y" by simp
    moreover from n1 c(2) have "?Y ! (q + 1) = CHR ''*''" by simp
    moreover from n2 c(3) have "?Y ! Suc (q + 1) = CHR ''/''" by simp
    ultimately have "hasStarSlash ?Y" by (rule hasStarSlash_nthI)
    then show False
      using escape_clean [of v] by (simp add: hasStarSlash_Cons hasStarSlash_append)
  qed
qed

lemma closedBlock_formatValue:
  assumes "CHR '' '' \<notin> set k"
  shows "closedBlock (formatValue k v)"
  unfolding closedBlock_iff
proof (intro conjI)
  let ?B = "formatValue k v"
  show "occursAt prefix ?B 0"
    by (simp add: occursAt_def formatValue_def)
  show "4 \<le> length ?B" by (simp add: length_formatValue)
  show "firstOcc suffix ?B 0 (length ?B - 4)"
    unfolding firstOcc_def
  proof (intro conjI allI impI)
    show "0 \<le> length ?B - 4" by simp
    show "occursAt suffix ?B (length ?B - 4)"
      by (simp add: occursAt_def formatValue_def length_suffix)
    fix m assume "0 \<le> m \<and> m < length ?B - 4"
    then have "m < 14 + length k + 1 + length (escape v)" by (simp add: length_formatValue)
    from no_suffix_in_formatValue [OF assms this] show "\<not> occursAt suffix ?B m" .
  qed
qed

section \<open>The blocks of parsed contents\<close>

lemma occursAt_sub:
  assumes "p + n \<le> length c" and "j + length pat \<le> n"
  shows "occursAt pat (take n (drop p c)) j \<longleftrightarrow> occursAt pat c (p + j)"
proof -
  from assms have "take (length pat) (drop j (take n (drop p c))) = take (length pat) (drop (p + j) c)"
    by (simp add: drop_take min_def add.commute)
  with assms show ?thesis by (simp add: occursAt_def)
qed

lemma rangeAt_closed:
  assumes p: "firstOcc prefix c i p" and e: "firstOcc suffix c p e"
  shows "closedBlock (inside c (rangeAt c (int p) (int e)))"
proof -
  from p e have pe: "p + 14 \<le> e" by (auto simp: firstOcc_def intro: suffix_after_prefix)
  from e have oe: "occursAt suffix c e" by (simp add: firstOcc_def)
  from occursAt_bound [OF oe] have el: "e + 4 \<le> length c" by (simp add: length_suffix)
  define n where "n = e + 4 - p"
  define b where "b = take n (drop p c)"
  from pe el have pn: "p + n \<le> length c" and n: "n = (e - p) + 4" and lb: "length b = n"
    by (simp_all add: n_def b_def)
  have "inside c (rangeAt c (int p) (int e)) = slice c (int p) (int (e + 4))"
    by (simp add: inside_def)
  also have "\<dots> = b" unfolding b_def n_def by (rule slice_nat) (use pe el in simp_all)
  finally have ins: "inside c (rangeAt c (int p) (int e)) = b" .
  have "closedBlock b"
    unfolding closedBlock_iff
  proof (intro conjI)
    from p have "occursAt prefix c (p + 0)" by (simp add: firstOcc_def)
    with occursAt_sub [OF pn, of 0 prefix] pe n show "occursAt prefix b 0"
      by (simp add: b_def length_prefix)
    from lb n show "4 \<le> length b" by simp
    show "firstOcc suffix b 0 (length b - 4)"
      unfolding firstOcc_def
    proof (intro conjI allI impI)
      show "0 \<le> length b - 4" by simp
      from oe pe have "occursAt suffix c (p + (e - p))" by simp
      with occursAt_sub [OF pn, of "e - p" suffix] n lb
      show "occursAt suffix b (length b - 4)" by (simp add: b_def length_suffix)
      fix m assume "0 \<le> m \<and> m < length b - 4"
      with lb n have m: "m < e - p" by simp
      with e have "\<not> occursAt suffix c (p + m)" unfolding firstOcc_def by simp
      with occursAt_sub [OF pn, of m suffix] m n show "\<not> occursAt suffix b m"
        by (simp add: b_def length_suffix)
    qed
  qed
  with ins show ?thesis by simp
qed

lemma rangeAt_key_spacefree:
  assumes p: "firstOcc prefix c i p" and e: "firstOcc suffix c p e"
  shows "CHR '' '' \<notin> set (rkey (rangeAt c (int p) (int e)))"
proof
  from first_space [OF p e] obtain ke where ke: "firstOcc '' '' c (p + 14) ke" "ke \<le> e"
    by blast
  from ke(1) have kl: "p + 14 \<le> ke" "ke < length c"
    by (simp_all add: firstOcc_def occursAt_space)
  assume "CHR '' '' \<in> set (rkey (rangeAt c (int p) (int e)))"
  moreover have "slice c (int (p + 14)) (int ke) = take (ke - (p + 14)) (drop (p + 14) c)"
    by (rule slice_nat) (use kl in simp_all)
  ultimately have "CHR '' '' \<in> set (take (ke - (p + 14)) (drop (p + 14) c))"
    by (simp only: rangeAt_nat [OF ke(1)] valueRange.simps)
  then obtain m where m: "m < ke - (p + 14)" "take (ke - (p + 14)) (drop (p + 14) c) ! m = CHR '' ''"
    using kl by (auto simp: in_set_conv_nth)
  with kl have "c ! (p + 14 + m) = CHR '' ''" by simp
  with m(1) kl have "occursAt '' '' c (p + 14 + m)" by (simp add: occursAt_space)
  moreover from m(1) have "p + 14 \<le> p + 14 + m \<and> p + 14 + m < ke" by simp
  ultimately show False using ke(1) unfolding firstOcc_def by blast
qed

lemma parsed_range_props:
  "r \<in> set (scanRanges c (int i)) \<Longrightarrow>
     closedBlock (inside c r) \<and> CHR '' '' \<notin> set (rkey r)"
proof (induction "length c - i" arbitrary: i rule: less_induct)
  case less
  from occ_cases [of i prefix c]
  consider (none) "\<forall>j\<ge>i. \<not> occursAt prefix c j" | (some) p where "firstOcc prefix c i p"
    by blast
  then show ?case
  proof cases
    case none
    from scanRanges_none1 [OF none] less.prems show ?thesis by simp
  next
    case some
    from occ_cases [of p suffix c]
    consider (unterminated) "\<forall>j\<ge>p. \<not> occursAt suffix c j"
      | (closed) e where "firstOcc suffix c p e"
      by blast
    then show ?thesis
    proof cases
      case unterminated
      from scanRanges_none2 [OF some unterminated] less.prems show ?thesis by simp
    next
      case closed
      from some have ip: "i \<le> p" by (simp add: firstOcc_def)
      from closed have pe: "p \<le> e" and el: "e + 4 \<le> length c"
        by (auto simp: firstOcc_def length_suffix dest: occursAt_bound)
      from ip pe el have d: "length c - (e + 4) < length c - i" by simp
      from less.prems have "r = rangeAt c (int p) (int e) \<or> r \<in> set (scanRanges c (int (e + 4)))"
        by (simp add: scanRanges_step [OF some closed])
      then show ?thesis
      proof
        assume "r = rangeAt c (int p) (int e)"
        with rangeAt_closed [OF some closed] rangeAt_key_spacefree [OF some closed]
        show ?thesis by simp
      next
        assume "r \<in> set (scanRanges c (int (e + 4)))"
        from less.hyps [OF d this] show ?thesis .
      qed
    qed
  qed
qed

lemma okPiece_pieceFor:
  assumes "r \<in> set (scanRanges c 0)"
  shows "okPiece (pieceFor V c r)"
proof -
  from parsed_range_props [of r c 0] assms
  have "closedBlock (inside c r)" "CHR '' '' \<notin> set (rkey r)" by simp_all
  then show ?thesis
    by (auto simp: okPiece_def pieceFor_def closedBlock_formatValue split: option.splits)
qed

section \<open>The fingerprint of serialized contents\<close>

lemma strippedContents_only_blocks:
  "list_all closedBlock bs \<Longrightarrow> strippedContents (concat bs) = []"
proof (induction bs)
  case Nil
  then show ?case by (simp add: strippedContents_noMarker noMarker_Nil)
next
  case (Cons b bs)
  then have b: "closedBlock b" and IH: "strippedContents (concat bs) = []" by simp_all
  from strippedContents_block [OF noMarker_Nil b, of "concat bs"] IH show ?case by simp
qed

lemma strippedContents_blocks_behind:
  assumes "noMarker g" and "list_all closedBlock bs"
  shows "strippedContents (g @ concat bs) = g"
proof (cases bs)
  case Nil
  with assms show ?thesis by (simp add: strippedContents_noMarker)
next
  case (Cons b bs')
  with assms have b: "closedBlock b" and r: "list_all closedBlock bs'" by simp_all
  from strippedContents_block [OF assms(1) b, of "concat bs'"] strippedContents_only_blocks [OF r] Cons
  show ?thesis by simp
qed

lemma strippedContents_blocks_front:
  "list_all closedBlock bs \<Longrightarrow> strippedContents (concat bs @ x) = strippedContents x"
proof (induction bs)
  case Nil
  then show ?case by simp
next
  case (Cons b bs)
  then have b: "closedBlock b" and IH: "strippedContents (concat bs @ x) = strippedContents x"
    by simp_all
  from strippedContents_block [OF noMarker_Nil b, of "concat bs @ x"] IH show ?case by simp
qed

lemma strippedContents_weave:
  assumes "noMarker (acc @ concat gs)" and "list_all okPiece ps"
    and "length gs = Suc (length ps)" and "list_all closedBlock bs"
  shows "strippedContents (acc @ weave gs ps @ concat bs) = acc @ concat gs"
  using assms(1,2,3)
proof (induction ps arbitrary: gs acc)
  case Nil
  then obtain g where gs: "gs = [g]" by (cases gs) auto
  with Nil.prems(1) have "noMarker (acc @ g)" by simp
  from strippedContents_blocks_behind [OF this assms(4)] gs show ?case by simp
next
  case (Cons p ps)
  from Cons.prems(3) obtain g gs' where gs: "gs = g # gs'" and len: "length gs' = Suc (length ps)"
    by (cases gs) auto
  from Cons.prems(2) have ok: "okPiece p" and oks: "list_all okPiece ps" by simp_all
  from Cons.prems(1) gs have nm: "noMarker ((acc @ g) @ concat gs')" by simp
  show ?case
  proof (cases "p = []")
    case True
    from Cons.IH [OF nm oks len] True gs show ?thesis by simp
  next
    case False
    with ok have cb: "closedBlock p" by (simp add: okPiece_def)
    from noMarker_appendD [OF nm] have n1: "noMarker (acc @ g)" and n2: "noMarker ([] @ concat gs')"
      by simp_all
    from Cons.IH [OF n2 oks len]
    have "strippedContents (weave gs' ps @ concat bs) = concat gs'" by simp
    with strippedContents_block [OF n1 cb, of "weave gs' ps @ concat bs"] gs
    show ?thesis by simp
  qed
qed

lemma length_outsideFrom: "length (outsideFrom c off rs) = Suc (length rs)"
  by (induction rs arbitrary: off) simp_all

lemma strippedContents_serialized:
  assumes nm: "noMarker (strippedContents c)"
    and keys: "list_all (\<lambda>p. CHR '' '' \<notin> set (fst p)) V"
  shows "strippedContents (getContentsFromLookup ((getCommentValueLookup c)\<lparr>vals := V\<rparr>))
     = strippedContents c"
proof -
  let ?lk = "(getCommentValueLookup c)\<lparr>vals := V\<rparr>"
  let ?rs = "scanRanges c 0"
  let ?gs = "outsideFrom c 0 ?rs"
  let ?ps = "map (pieceFor V c) ?rs"
  let ?front = "map formatProp (rev (filter (\<lambda>p. \<not> atEnd p) (newKeys ?lk)))"
  let ?behind = "map formatProp (filter atEnd (newKeys ?lk))"
  have new: "\<forall>p\<in>set (newKeys ?lk). closedBlock (formatProp p)"
  proof
    fix p assume "p \<in> set (newKeys ?lk)"
    then have "p \<in> set V" by (simp add: newKeys_def set_ownKeys)
    with keys have "CHR '' '' \<notin> set (fst p)" by (simp add: list_all_iff)
    then show "closedBlock (formatProp p)" by (simp add: formatProp_def closedBlock_formatValue)
  qed
  then have fr: "list_all closedBlock ?front" and bk: "list_all closedBlock ?behind"
    by (simp_all add: list_all_iff)
  have ps: "list_all okPiece ?ps" by (simp add: list_all_iff okPiece_pieceFor)
  have len: "length ?gs = Suc (length ?ps)" by (simp add: length_outsideFrom)
  from nm have nm': "noMarker ([] @ concat ?gs)" by (simp add: strippedContents_eq)
  have "getContentsFromLookup ?lk = concat ?front @ weave ?gs ?ps @ concat ?behind"
    by (simp only: getContentsFromLookup_eq [of ?lk] rewriteRanges_parsed)
  then have "strippedContents (getContentsFromLookup ?lk) = strippedContents (weave ?gs ?ps @ concat ?behind)"
    by (simp only: strippedContents_blocks_front [OF fr])
  also have "\<dots> = concat ?gs"
    using strippedContents_weave [OF nm' ps len bk] by simp
  finally show ?thesis by (simp add: strippedContents_eq)
qed

lemma assign_keys:
  assumes "set (map fst kvs) \<subseteq> set metadataKeys"
  shows "list_all (\<lambda>p. CHR '' '' \<notin> set (fst p)) (vals (assign kvs (getCommentValueLookup c)))"
proof -
  have k: "fst ` set (fold (\<lambda>p ps. setProp ps (fst p) (snd p)) kvs ps) = fst ` set kvs \<union> fst ` set ps"
    for ps
  proof (induction kvs arbitrary: ps)
    case Nil
    then show ?case by simp
  next
    case (Cons q kvs)
    then show ?case by (simp add: keys_setProp)
  qed
  have m: "\<forall>k\<in>set metadataKeys. CHR '' '' \<notin> set k" by (simp add: metadataKeys_def)
  have "\<forall>k\<in>fst ` set (vals (assign kvs (getCommentValueLookup c))). CHR '' '' \<notin> set k"
  proof
    fix k assume "k \<in> fst ` set (vals (assign kvs (getCommentValueLookup c)))"
    then have "k \<in> fst ` set kvs \<or> k \<in> rkey ` set (scanRanges c 0)"
      by (auto simp: assign_def k parsed_vals keys_setAll)
    then show "CHR '' '' \<notin> set k"
    proof
      assume "k \<in> fst ` set kvs"
      with assms m show ?thesis by auto
    next
      assume "k \<in> rkey ` set (scanRanges c 0)"
      then obtain r where "r \<in> set (scanRanges c (int 0))" "k = rkey r" by auto
      with parsed_range_props [of r c 0] show ?thesis by simp
    qed
  qed
  then show ?thesis by (simp add: list_all_iff)
qed

lemma assign_eq: "assign kvs (getCommentValueLookup c) =
    (getCommentValueLookup c)\<lparr>vals := vals (assign kvs (getCommentValueLookup c))\<rparr>"
  by (simp add: assign_def)

lemma getHash_assign:
  assumes "noMarker (strippedContents c)" and "set (map fst kvs) \<subseteq> set metadataKeys"
  shows "getHash sha512hex (getContentsFromLookup (assign kvs (getCommentValueLookup c)))
     = sha512hex (strippedContents c)"
proof -
  have "strippedContents (getContentsFromLookup
      ((getCommentValueLookup c)\<lparr>vals := vals (assign kvs (getCommentValueLookup c))\<rparr>))
     = strippedContents c"
    by (rule strippedContents_serialized [OF assms(1) assign_keys [OF assms(2)]])
  then show ?thesis by (simp add: getHash_def flip: assign_eq)
qed

section \<open>Reading a new block back\<close>

lemma first_space_formatted:
  assumes k: "CHR '' '' \<notin> set k"
  shows "firstOcc '' '' (formatValue k v @ rest) 14 (14 + length k)"
  unfolding firstOcc_def occursAt_space
proof (intro conjI allI impI notI)
  let ?Y = "formatValue k v @ rest"
  show "14 \<le> 14 + length k" by simp
  show "14 + length k < length ?Y" by (simp add: length_formatValue)
  have "?Y ! (length (prefix @ k) + 0) = CHR '' ''"
    unfolding formatValue_def append_assoc [symmetric]
    by (simp only: append_assoc nth_append_length_plus) simp
  then show "?Y ! (14 + length k) = CHR '' ''" by (simp add: length_prefix)
  fix m assume m: "14 \<le> m \<and> m < 14 + length k" and sp: "m < length ?Y \<and> ?Y ! m = CHR '' ''"
  from m have lt: "m - 14 < length k" by linarith
  with m have "?Y ! m = k ! (m - 14)"
    by (simp add: formatValue_def nth_append length_prefix)
  moreover from lt have "k ! (m - 14) \<in> set k" by simp
  ultimately show False using sp k by simp
qed

lemma rangeAt_formatted:
  assumes k: "CHR '' '' \<notin> set k"
  shows "rangeAt (g @ formatValue k v @ rest) (int (length g))
           (int (length g + (length (formatValue k v) - 4)))
     = \<lparr>rkey = k, rvalue = escape v, rstart = int (length g),
        rend = int (length g + length (formatValue k v))\<rparr>"
proof -
  let ?F = "formatValue k v"
  let ?Y = "?F @ rest"
  let ?ke = "14 + length k"
  have fs: "firstOcc '' '' (g @ ?Y) (length g + 14) (length g + ?ke)"
    using first_space_formatted [OF k, of v rest]
    by (simp only: firstOcc_append_shift)
  have l: "length ?F = 14 + length k + 1 + length (escape v) + 4" by (rule length_formatValue)
  have Y: "?Y = prefix @ k @ '' '' @ escape v @ suffix @ rest" by (simp add: formatValue_def)
  have "slice (g @ ?Y) (int (length g + 14)) (int (length g + ?ke)) = slice ?Y (int 14) (int ?ke)"
    by (rule slice_append_shift)
  also have "\<dots> = k"
    unfolding slice_nat_gen by (simp add: Y length_prefix)
  finally have kk: "slice (g @ ?Y) (int (length g + 14)) (int (length g + ?ke)) = k" .
  have "slice (g @ ?Y) (int (length g + (?ke + 1))) (int (length g + (length ?F - 4)))
      = slice ?Y (int (?ke + 1)) (int (length ?F - 4))"
    by (rule slice_append_shift)
  also have "\<dots> = escape v"
    unfolding slice_nat_gen l by (simp add: Y length_prefix)
  finally have vv: "slice (g @ ?Y) (int (length g + (?ke + 1))) (int (length g + (length ?F - 4)))
      = escape v" .
  have e1: "length g + ?ke + 1 = length g + (?ke + 1)" by simp
  from l have e2: "length g + (length ?F - 4) + 4 = length g + length ?F" by simp
  show ?thesis
    unfolding rangeAt_nat [OF fs] e1 e2 kk vv ..
qed

lemma parse_formatted:
  assumes g: "noMarker g" and r: "noMarker rest" and k: "CHR '' '' \<notin> set k"
  shows "vals (getCommentValueLookup (g @ formatValue k v @ rest)) = [(k, escape v)]"
proof -
  from r have "\<forall>j\<ge>0. \<not> occursAt prefix rest j" by (simp add: noMarker_iff)
  then have "scanRanges rest (int 0) = []" by (rule scanRanges_none1)
  then have n: "scanRanges rest 0 = []" by simp
  have "scanRanges (g @ formatValue k v @ rest) 0 =
      [\<lparr>rkey = k, rvalue = escape v, rstart = int (length g),
        rend = int (length g + length (formatValue k v))\<rparr>]"
    unfolding closedBlock_scan [OF g closedBlock_formatValue [OF k]] n rangeAt_formatted [OF k]
    by (simp only: list.map)
  then show ?thesis
    by (simp add: parsed_vals setAll_def)
qed

lemma ownKeys_single: "ownKeys [p] = [p]"
  by (simp add: ownKeys_def)

lemma serialize_new_key:
  assumes "noMarker c"
  shows "getContentsFromLookup (assign [(k, v)] (getCommentValueLookup c)) =
     (if atEnd (k, v) then c @ formatValue k v else formatValue k v @ c)"
proof -
  from assms have "\<forall>j\<ge>0. \<not> occursAt prefix c j" by (simp add: noMarker_iff)
  then have s: "scanRanges c (int 0) = []" by (rule scanRanges_none1)
  then have lk: "assign [(k, v)] (getCommentValueLookup c)
      = \<lparr>vals = [(k, v)], ranges = [], original = c\<rparr>"
    by (simp add: assign_def getCommentValueLookup_eq setAll_def)
  show ?thesis
    unfolding lk getContentsFromLookup_eq
    by (simp add: newKeys_def ownKeys_single rewriteRanges_def formatProp_def)
qed

lemma value_read_back:
  assumes c: "noMarker c" and k: "CHR '' '' \<notin> set k"
  shows "vals (getCommentValueLookup (getContentsFromLookup (assign [(k, v)] (getCommentValueLookup c))))
     = [(k, escape v)]"
proof (cases "atEnd (k, v)")
  case True
  from parse_formatted [OF c noMarker_Nil k, of v] True show ?thesis
    by (simp add: serialize_new_key [OF c])
next
  case False
  from parse_formatted [OF noMarker_Nil c k, of v] False show ?thesis
    by (simp add: serialize_new_key [OF c])
qed

section \<open>The coordinator and the run\<close>










section \<open>Claims about serialization\<close>

text \<open>
  Claim C2, as the code has it. Serializing the unmodified result of parsing gives back
  the contents when the blocks that share a key hold the same value (so also when no key
  occurs in two blocks): every range then still holds the value the map has for its key,
  the loop over the ranges rewrites nothing, and no key of the map is new.
\<close>

theorem roundtrip_unmodified:
  assumes "consistentKeys (ranges (getCommentValueLookup contents))"
  shows "getContentsFromLookup (getCommentValueLookup contents) = contents"
  using assms by (rule roundtrip_consistent)

theorem roundtrip_unmodified_witness:
  "consistentKeys (ranges (getCommentValueLookup twinContents))
   \<and> getContentsFromLookup (getCommentValueLookup twinContents) = twinContents"
proof -
  have h: "consistentKeys (ranges (getCommentValueLookup twinContents))" by code_simp
  from roundtrip_unmodified [OF h] h show ?thesis by simp
qed

text \<open>
  Claim C2 as stated fails when one key occurs in two blocks with different values: the
  map keeps the last value, and the earlier block is rewritten to hold it.
\<close>

theorem roundtrip_duplicate_key_counterexample:
  "getContentsFromLookup (getCommentValueLookup dupContents) \<noteq> dupContents
   \<and> getContentsFromLookup (getCommentValueLookup dupContents)
       = prefix @ ''a 2'' @ suffix @ prefix @ ''a 2'' @ suffix"
  by code_simp

text \<open>
  Claim C9. The keys of the value map that no range holds (\<open>newKeys\<close>) are visited in
  the order of \<open>for (key in valueLookup)\<close>. For each, the block
  \<open>\n/** @autorun-<key> <escaped value> */\n\<close> is put behind the contents when the value
  is longer than 60 or the key is \<open>output\<close>, and in front of the contents otherwise. So
  the result is: the blocks of the other new keys, the last visited first; then the
  contents the loop over the ranges left; then the blocks of the long values and of
  \<open>output\<close>, in the order visited. For a lookup with one key and no range this is the
  block behind or in front of the original contents.
\<close>

theorem new_keys_placement:
  "getContentsFromLookup valueLookup =
     concat (map (\<lambda>p. prefix @ fst p @ '' '' @ escape (snd p) @ suffix)
       (rev (filter (\<lambda>p. \<not> (60 < length (snd p) \<or> fst p = ''output'')) (newKeys valueLookup))))
     @ rewriteRanges valueLookup
     @ concat (map (\<lambda>p. prefix @ fst p @ '' '' @ escape (snd p) @ suffix)
         (filter (\<lambda>p. 60 < length (snd p) \<or> fst p = ''output'') (newKeys valueLookup)))
   \<and> getContentsFromLookup \<lparr>vals = [(key, v)], ranges = [], original = contents\<rparr> =
       (if 60 < length v \<or> key = ''output''
        then contents @ prefix @ key @ '' '' @ escape v @ suffix
        else prefix @ key @ '' '' @ escape v @ suffix @ contents)"
proof
  have a: "atEnd = (\<lambda>p. 60 < length (snd p) \<or> fst p = ''output'')"
    by (rule ext) (simp add: atEnd_def)
  have f: "formatProp = (\<lambda>p. prefix @ fst p @ '' '' @ escape (snd p) @ suffix)"
    by (rule ext) (simp add: formatProp_def formatValue_def)
  show "getContentsFromLookup valueLookup =
     concat (map (\<lambda>p. prefix @ fst p @ '' '' @ escape (snd p) @ suffix)
       (rev (filter (\<lambda>p. \<not> (60 < length (snd p) \<or> fst p = ''output'')) (newKeys valueLookup))))
     @ rewriteRanges valueLookup
     @ concat (map (\<lambda>p. prefix @ fst p @ '' '' @ escape (snd p) @ suffix)
         (filter (\<lambda>p. 60 < length (snd p) \<or> fst p = ''output'') (newKeys valueLookup)))"
    using getContentsFromLookup_eq [of valueLookup] unfolding a f .
  show "getContentsFromLookup \<lparr>vals = [(key, v)], ranges = [], original = contents\<rparr> =
       (if 60 < length v \<or> key = ''output''
        then contents @ prefix @ key @ '' '' @ escape v @ suffix
        else prefix @ key @ '' '' @ escape v @ suffix @ contents)"
    by (simp add: getContentsFromLookup_def newKeyStep_def formatValue_def ownKeys_def)
qed

theorem new_keys_placement_witness:
  "getContentsFromLookup ((getCommentValueLookup sampleContents)\<lparr>vals := sampleValues\<rparr>) =
     CHR 0x0A # ''/** @autorun-s t */'' @ CHR 0x0A # ''x''
     @ CHR 0x0A # ''/** @autorun-a 2 */'' @ CHR 0x0A # ''yz''
     @ CHR 0x0A # ''/** @autorun-output hi */'' @ [CHR 0x0A]"
proof -
  let ?lk = "(getCommentValueLookup sampleContents)\<lparr>vals := sampleValues\<rparr>"
  have e: "concat (map (\<lambda>p. prefix @ fst p @ '' '' @ escape (snd p) @ suffix)
       (rev (filter (\<lambda>p. \<not> (60 < length (snd p) \<or> fst p = ''output'')) (newKeys ?lk))))
     @ rewriteRanges ?lk
     @ concat (map (\<lambda>p. prefix @ fst p @ '' '' @ escape (snd p) @ suffix)
         (filter (\<lambda>p. 60 < length (snd p) \<or> fst p = ''output'') (newKeys ?lk)))
     = CHR 0x0A # ''/** @autorun-s t */'' @ CHR 0x0A # ''x''
     @ CHR 0x0A # ''/** @autorun-a 2 */'' @ CHR 0x0A # ''yz''
     @ CHR 0x0A # ''/** @autorun-output hi */'' @ [CHR 0x0A]"
    by code_simp
  from new_keys_placement [THEN conjunct1, of ?lk] show ?thesis
    unfolding e .
qed

text \<open>
  Claim C10. The contents are the text outside the ranges (\<open>outsideFrom\<close>) woven with the
  text of the ranges; what \<open>getContentsFromLookup\<close> returns for the parsed contents under
  any value map is the same outside text, in the same order, woven with what each range
  became (its old text, a new block, or nothing), with the blocks of the new keys in front
  and behind.
\<close>

theorem serialization_frame:
  "getContentsFromLookup ((getCommentValueLookup contents)\<lparr>vals := V\<rparr>) =
     concat (map formatProp (rev (filter (\<lambda>p. \<not> atEnd p)
        (newKeys ((getCommentValueLookup contents)\<lparr>vals := V\<rparr>)))))
     @ weave (outsideFrom contents 0 (ranges (getCommentValueLookup contents)))
         (map (pieceFor V contents) (ranges (getCommentValueLookup contents)))
     @ concat (map formatProp (filter atEnd
        (newKeys ((getCommentValueLookup contents)\<lparr>vals := V\<rparr>))))
   \<and> contents =
       weave (outsideFrom contents 0 (ranges (getCommentValueLookup contents)))
         (map (inside contents) (ranges (getCommentValueLookup contents)))"
proof
  show "getContentsFromLookup ((getCommentValueLookup contents)\<lparr>vals := V\<rparr>) =
     concat (map formatProp (rev (filter (\<lambda>p. \<not> atEnd p)
        (newKeys ((getCommentValueLookup contents)\<lparr>vals := V\<rparr>)))))
     @ weave (outsideFrom contents 0 (ranges (getCommentValueLookup contents)))
         (map (pieceFor V contents) (ranges (getCommentValueLookup contents)))
     @ concat (map formatProp (filter atEnd
        (newKeys ((getCommentValueLookup contents)\<lparr>vals := V\<rparr>))))"
    by (simp only: getContentsFromLookup_eq [of "(getCommentValueLookup contents)\<lparr>vals := V\<rparr>"]
          rewriteRanges_parsed parsed_ranges)
  show "contents =
       weave (outsideFrom contents 0 (ranges (getCommentValueLookup contents)))
         (map (inside contents) (ranges (getCommentValueLookup contents)))"
    using contents_woven [of contents] by simp
qed

theorem serialization_frame_witness:
  "getContentsFromLookup ((getCommentValueLookup sampleContents)\<lparr>vals := sampleValues\<rparr>) =
     formatValue ''s'' ''t'' @ weave [''x'', ''y'', ''z''] [formatValue ''a'' ''2'', []]
       @ formatValue ''output'' ''hi''
   \<and> sampleContents =
       weave [''x'', ''y'', ''z''] [prefix @ ''a 1'' @ suffix, prefix @ ''stop now'' @ suffix]"
proof -
  have n: "newKeys ((getCommentValueLookup sampleContents)\<lparr>vals := sampleValues\<rparr>)
      = [(''output'', ''hi''), (''s'', ''t'')]"
    by code_simp
  have r: "outsideFrom sampleContents 0 (ranges (getCommentValueLookup sampleContents)) = [''x'', ''y'', ''z'']"
    by code_simp
  have p: "map (pieceFor sampleValues sampleContents) (ranges (getCommentValueLookup sampleContents))
      = [formatValue ''a'' ''2'', []]"
    by code_simp
  have i: "map (inside sampleContents) (ranges (getCommentValueLookup sampleContents))
      = [prefix @ ''a 1'' @ suffix, prefix @ ''stop now'' @ suffix]"
    by code_simp
  from serialization_frame [where contents = sampleContents and V = sampleValues]
  show ?thesis unfolding n r p i by (simp add: atEnd_def formatProp_def)
qed

section \<open>Claims about the fingerprint and escaping\<close>

text \<open>
  Claim C1, as the code has it. The fingerprint does not change under assignments to
  \<open>lastRunHash\<close>, \<open>output\<close> and \<open>stop\<close> when the text outside the metadata blocks
  (what \<open>getHash\<close> hands to the digest) holds no opening marker; it is then also the
  fingerprint of that text. The digest is any function.
\<close>

theorem fingerprint_stable:
  assumes "noMarker (strippedContents contents)"
    and "set (map fst V1) \<subseteq> set metadataKeys"
    and "set (map fst V2) \<subseteq> set metadataKeys"
  shows "getHash sha512hex (getContentsFromLookup (assign V1 (getCommentValueLookup contents)))
       = getHash sha512hex (getContentsFromLookup (assign V2 (getCommentValueLookup contents)))
     \<and> getHash sha512hex (getContentsFromLookup (assign V1 (getCommentValueLookup contents)))
       = getHash sha512hex (strippedContents contents)"
proof -
  have "getHash sha512hex (strippedContents contents) = sha512hex (strippedContents contents)"
    by (simp add: getHash_def strippedContents_noMarker [OF assms(1)])
  with getHash_assign [OF assms(1,2)] getHash_assign [OF assms(1,3)] show ?thesis by simp
qed

theorem fingerprint_stable_witness:
  "noMarker (strippedContents sampleContents)
   \<and> set (map fst firstValues) \<subseteq> set metadataKeys
   \<and> set (map fst secondValues) \<subseteq> set metadataKeys
   \<and> getHash id (getContentsFromLookup (assign firstValues (getCommentValueLookup sampleContents)))
       = getHash id (getContentsFromLookup (assign secondValues (getCommentValueLookup sampleContents)))
   \<and> getHash id (getContentsFromLookup (assign firstValues (getCommentValueLookup sampleContents)))
       = getHash id (strippedContents sampleContents)"
proof -
  have h1: "noMarker (strippedContents sampleContents)" by code_simp
  have h2: "set (map fst firstValues) \<subseteq> set metadataKeys" by code_simp
  have h3: "set (map fst secondValues) \<subseteq> set metadataKeys" by code_simp
  from fingerprint_stable [OF h1 h2 h3, of id] h1 h2 h3 show ?thesis by blast
qed

text \<open>
  Claim C1 as stated fails for contents that end in an opening marker with no closing
  marker: the block appended for \<open>output\<close> closes it, and the text handed to the digest
  loses what stood behind the marker. \<open>writeContents\<close> compares the two fingerprints
  before it writes for this reason. The digest is left out (\<open>id\<close>): the two fingerprints
  are digests of different texts.
\<close>

theorem fingerprint_open_marker_counterexample:
  "getHash id (getContentsFromLookup (assign [(''output'', ''hi'')] (getCommentValueLookup openContents)))
     \<noteq> getHash id (getContentsFromLookup (assign [] (getCommentValueLookup openContents)))
   \<and> getHash id (getContentsFromLookup (assign [(''output'', ''hi'')] (getCommentValueLookup openContents)))
     = ''x''
   \<and> getHash id (getContentsFromLookup (assign [] (getCommentValueLookup openContents)))
     = openContents"
  by code_simp

text \<open>
  Claim C6, as the code has it. \<open>formatValue\<close> escapes the value and
  \<open>getCommentValueLookup\<close> reads the text of the block as it stands: a value stored
  under a key without a space, in contents free of the opening marker, reads back as its
  escaped form, which is the value itself exactly when the value holds no \<open>*/\<close>.
\<close>

theorem value_read_back_escaped:
  assumes "noMarker contents" and "CHR '' '' \<notin> set key"
  shows "vals (getCommentValueLookup
            (getContentsFromLookup (assign [(key, v)] (getCommentValueLookup contents))))
       = [(key, escape v)]
     \<and> (escape v = v \<longleftrightarrow> \<not> hasStarSlash v)"
  using value_read_back [OF assms] escape_id by simp

theorem value_read_back_escaped_witness:
  "noMarker ''x'' \<and> CHR '' '' \<notin> set ''k''
   \<and> vals (getCommentValueLookup
            (getContentsFromLookup (assign [(''k'', ''a*b/'')] (getCommentValueLookup ''x''))))
       = [(''k'', ''a*b/'')]"
proof -
  have h1: "noMarker ''x''" by code_simp
  have h2: "CHR '' '' \<notin> set ''k''" by simp
  have e: "escape ''a*b/'' = ''a*b/''" by simp
  from value_read_back_escaped [OF h1 h2, of "''a*b/''"] h1 h2 show ?thesis
    unfolding e by simp
qed

text \<open>Claim C6 as stated fails for a value that holds \<open>*/\<close>: what is read back holds
  \<open>*\/\<close> in its place.\<close>

theorem value_with_closing_marker_counterexample:
  "getProp (vals (getCommentValueLookup
      (getContentsFromLookup (assign [(''k'', ''a*/b'')] (getCommentValueLookup [])))))
      ''k'' \<noteq> Some ''a*/b''
   \<and> getProp (vals (getCommentValueLookup
      (getContentsFromLookup (assign [(''k'', ''a*/b'')] (getCommentValueLookup [])))))
      ''k'' = Some [CHR ''a'', CHR ''*'', CHR 0x5C, CHR ''/'', CHR ''b'']"
  by code_simp

section \<open>Claims about the coordinator and the run\<close>



text \<open>
  Claim C5. When the \<open>lastRunHash\<close> value parsed from the contents read is the
  fingerprint of those contents, \<open>runOnFileNameInner\<close> returns before it forks: it does
  nothing (no process, no write) and leaves no run behind.
\<close>

theorem skip_on_unchanged:
  assumes "getProp (vals (getCommentValueLookup contents)) ''lastRunHash''
     = Some (getHash sha512hex contents)"
  shows "startRun sha512hex scriptFolder fileName (Fulfilled contents) statResult = ([], None)"
  using assms by (cases statResult) (simp_all add: startRun_def)

theorem skip_on_unchanged_witness:
  "getProp (vals (getCommentValueLookup unchangedContents)) ''lastRunHash''
     = Some (getHash id unchangedContents)
   \<and> startRun id ''scripts'' ''a.js'' (Fulfilled unchangedContents) (Fulfilled ()) = ([], None)"
proof -
  have h: "getProp (vals (getCommentValueLookup unchangedContents)) ''lastRunHash''
     = Some (getHash id unchangedContents)"
    by code_simp
  from skip_on_unchanged [OF h, of "''scripts''" "''a.js''" "Fulfilled ()"] h show ?thesis by blast
qed

lemma stop_found:
  assumes "hasProp (vals (getCommentValueLookup fresh)) ''stop''"
  shows "writeContents_afterRead sha512hex fileName j (Fulfilled fresh)
       = (j\<lparr>jobContents := getContentsFromLookup (stopAdopted fresh),
             jobOutputValues := stopAdopted fresh\<rparr>,
          [ConsoleLog (''Trying to stop previous run of file '' @ fileName), Kill ''SIGKILL''],
          Fulfilled (getContentsFromLookup (stopAdopted fresh), True))"
    and "\<not> hasProp (vals (stopAdopted fresh)) ''stop''"
proof -
  from assms show "writeContents_afterRead sha512hex fileName j (Fulfilled fresh)
       = (j\<lparr>jobContents := getContentsFromLookup (stopAdopted fresh),
             jobOutputValues := stopAdopted fresh\<rparr>,
          [ConsoleLog (''Trying to stop previous run of file '' @ fileName), Kill ''SIGKILL''],
          Fulfilled (getContentsFromLookup (stopAdopted fresh), True))"
    by (simp add: writeContents_afterRead_def Let_def stopAdopted_def)
  show "\<not> hasProp (vals (stopAdopted fresh)) ''stop''"
    by (auto simp: stopAdopted_def hasProp_iff deleteProp_def)
qed

lemma done_only_after_write:
  "writeContents_afterWrite j True (Fulfilled ()) = (j\<lparr>jobDone := True\<rparr>, Fulfilled ())"
  by (simp add: writeContents_afterWrite_def)

lemma afterRead_keeps_done:
  "jobDone (fst (writeContents_afterRead sha512hex fileName j readResult)) = jobDone j"
  by (simp add: writeContents_afterRead_def Let_def)

text \<open>
  Claim C3 fails on the code. \<open>writeContents\<close> sets \<open>done\<close> only after its write has
  settled, and \<open>proc.kill\<close> ends the output of the child, which calls \<open>onDone\<close>: the end
  of \<open>runOnFileNameInner\<close> can be scheduled while the write of the stopping checkpoint is
  under way. It finds \<open>done\<close> false, reads the file (now without \<open>stop\<close>), and writes
  the output of the stopped run and its \<open>lastRunHash\<close> into it: one more checkpoint,
  with what the claim says is discarded.
\<close>

theorem stop_then_end_of_run_writes_output:
  "startRun id ''scripts'' ''a.js'' (Fulfilled ''x'') (Fulfilled ())
     = ([ConsoleLog ''Rerunning a.js'', Fork ''scripts/a.js''], Some plainJob)
   \<and> map_option runEffects (ticks id ''a.js'' ''scripts/a.js'' cancelSchedule (launched plainJob))
     = Some [ConsoleLog ''Trying to stop previous run of file a.js'',
             Kill ''SIGKILL'',
             WriteFile ''scripts/a.js'' ''x'',
             ConsoleLog ''Finished a.js'',
             WriteFile ''scripts/a.js''
               (CHR 0x0A # ''/** @autorun-lastRunHash x */'' @ CHR 0x0A # ''x''
                @ CHR 0x0A # ''/** @autorun-output '' @ CHR 0x0A # ''partial''
                @ CHR 0x0A # ''Exit code non-0, was null'' @ CHR 0x0A # '' */'' @ [CHR 0x0A])]
   \<and> map_option settled (ticks id ''a.js'' ''scripts/a.js'' cancelSchedule (launched plainJob))
     = Some (Some (Fulfilled ()))"
  by code_simp

section \<open>Where the code departs from the claims\<close>

lemma hash_change_rejects_writeLoop:
  assumes "\<not> jobDone j"
    and "writeContents_afterRead sha512hex fileName j readResult = (j', effs, Failed err)"
  shows "writeLoopTurn sha512hex fileName filePath (j, Turning) readResult writeResult
     = ((j', Rejected err), effs)"
  using assms by (simp add: writeLoopTurn_def writeContents_enter_def)

lemma hash_change_no_write:
  assumes "readResult = Failed e \<or> (\<exists>s. readResult = Fulfilled s \<and> \<not> hasProp (vals (getCommentValueLookup s)) ''stop'')"
    and "jobHash j \<noteq> getHash sha512hex (jobContents (fst (writeContents_afterRead sha512hex fileName j readResult)))"
  shows "snd (writeContents_afterRead sha512hex fileName j readResult) = ([], Failed hashChangeError)"
  using assms by (auto simp: writeContents_afterRead_def Let_def)

lemma final_error_reaches_boundary:
  assumes "endCall r = AwaitsRead"
    and "writeContents_afterRead sha512hex fileName (runJob r) readResult = (j', effs, Failed err)"
  shows "map_option settled (tickRun sha512hex fileName filePath (EndReadSettles readResult) r)
     = Some (Some (Failed err))"
  using assms by (simp add: tickRun_def)

text \<open>A turn of \<open>writeLoop\<close> is the steps of the run that make it, one after the other.\<close>

lemma writeLoopTurn_as_ticks:
  assumes "writeLoop r = Turning" and "loopCall r = NotCalled"
  shows "\<exists>ts r'. set ts \<subseteq> {LoopEnters, LoopReadSettles readResult, LoopWriteSettles writeResult}
     \<and> ticks sha512hex fileName filePath ts r = Some r'
     \<and> writeLoopTurn sha512hex fileName filePath (runJob r, Turning) readResult writeResult
        = ((runJob r', writeLoop r'), drop (length (runEffects r)) (runEffects r'))
     \<and> take (length (runEffects r)) (runEffects r') = runEffects r"
proof (cases "jobDone (runJob r)")
  case True
  with assms have "ticks sha512hex fileName filePath [LoopEnters] r = Some (r\<lparr>writeLoop := Left\<rparr>)"
    by (simp add: tickRun_def writeContents_enter_def)
  moreover from True have "writeLoopTurn sha512hex fileName filePath (runJob r, Turning) readResult writeResult
      = ((runJob r, Left), [])"
    by (simp add: writeLoopTurn_def writeContents_enter_def)
  ultimately show ?thesis
    by (intro exI [of _ "[LoopEnters]"] exI [of _ "r\<lparr>writeLoop := Left\<rparr>"]) simp
next
  case False
  obtain j' effs res where ar: "writeContents_afterRead sha512hex fileName (runJob r) readResult = (j', effs, res)"
    by (cases "writeContents_afterRead sha512hex fileName (runJob r) readResult") auto
  show ?thesis
  proof (cases res)
    case (Failed err)
    let ?r' = "r\<lparr>loopCall := AwaitsRead, runJob := j', runEffects := runEffects r @ effs,
        loopCall := NotCalled, writeLoop := Rejected err\<rparr>"
    from assms False ar Failed
    have "ticks sha512hex fileName filePath [LoopEnters, LoopReadSettles readResult] r = Some ?r'"
      by (simp add: tickRun_def writeContents_enter_def)
    moreover from False ar Failed
    have "writeLoopTurn sha512hex fileName filePath (runJob r, Turning) readResult writeResult
        = ((j', Rejected err), effs)"
      by (simp add: writeLoopTurn_def writeContents_enter_def)
    ultimately show ?thesis
      by (intro exI [of _ "[LoopEnters, LoopReadSettles readResult]"] exI [of _ ?r']) simp
  next
    case (Fulfilled cs)
    obtain contents shouldKill where cs: "cs = (contents, shouldKill)" by (cases cs)
    obtain j'' wres where aw: "writeContents_afterWrite j' shouldKill writeResult = (j'', wres)"
      by (cases "writeContents_afterWrite j' shouldKill writeResult")
    let ?l = "case wres of Failed err \<Rightarrow> Rejected err | Fulfilled u \<Rightarrow> Turning"
    let ?r' = "r\<lparr>loopCall := AwaitsRead, runJob := j',
        runEffects := runEffects r @ effs @ [WriteFile filePath contents],
        loopCall := AwaitsWrite shouldKill, runJob := j'', loopCall := NotCalled, writeLoop := ?l\<rparr>"
    from assms False ar Fulfilled cs aw
    have "ticks sha512hex fileName filePath
        [LoopEnters, LoopReadSettles readResult, LoopWriteSettles writeResult] r = Some ?r'"
      by (cases wres) (simp_all add: tickRun_def writeContents_enter_def)
    moreover from False ar Fulfilled cs aw
    have "writeLoopTurn sha512hex fileName filePath (runJob r, Turning) readResult writeResult
        = ((j'', ?l), effs @ [WriteFile filePath contents])"
      by (cases wres) (simp_all add: writeLoopTurn_def writeContents_enter_def)
    ultimately show ?thesis
      by (intro exI [of _ "[LoopEnters, LoopReadSettles readResult, LoopWriteSettles writeResult]"]
            exI [of _ ?r']) simp
  qed
qed

lemma boundary_logs_and_retriggers:
  assumes "fileName \<in> set (filesPendingTrigger s)" and "fileName \<in> set (filesPending s)"
  shows "console (afterRun fileName (Failed err) s)
       = console s @ [ConsoleError (''Error running '' @ fileName) err]
     \<and> started (afterRun fileName (Failed err) s) = started s @ [fileName]
     \<and> fileName \<notin> set (filesPendingTrigger (afterRun fileName (Failed err) s))"
  using assms by (simp add: afterRun_def Let_def runOnFileName_def)

lemma deliver_output:
  "jobOutput (fst (deliver ev (j, r))) =
     jobOutput j @
       (if source ev = Proc \<and> eventName ev = ''error''
        then [CHR 0x0A] @ ''Ending with error '' @ chunkText (argument ev) @ [CHR 0x0A]
        else if source ev = Proc \<and> eventName ev = ''exit''
        then (if argument ev \<noteq> ExitCode (Some 0)
              then [CHR 0x0A] @ ''Exit code non-0, was '' @ chunkText (argument ev) @ [CHR 0x0A]
              else [])
        else if source ev = ProcStdout \<and> eventName ev = ''data'' then chunkText (argument ev)
        else if source ev = ProcStderr \<and> eventName ev = ''err'' then chunkText (argument ev)
        else [])"
  by (simp add: deliver_def)

text \<open>
  Claim C7 fails on the code for the checkpoints that \<open>writeLoop\<close> makes. For a file
  that ends in an opening marker with no closing marker, the run starts, and the first
  turn of \<open>writeLoop\<close> finds the fingerprint changed: \<open>writeContents\<close> throws and writes
  nothing, as the claim says, but the error rejects the promise of \<open>writeLoop\<close>, which
  nothing awaits, and not the promise that \<open>runOnFileName\<close> awaits inside its \<open>try\<close>:
  nothing is logged there, and the name stays pending.
\<close>

theorem hash_change_in_writeLoop_unhandled:
  "startRun id ''scripts'' ''a.js'' (Fulfilled openContents) (Fulfilled ())
     = ([ConsoleLog ''Rerunning a.js'', Fork ''scripts/a.js''], Some openJob)
   \<and> snd (writeLoopTurn id ''a.js'' ''scripts/a.js'' (openJob, Turning)
            (Fulfilled openContents) (Fulfilled ())) = []
   \<and> snd (fst (writeLoopTurn id ''a.js'' ''scripts/a.js'' (openJob, Turning)
            (Fulfilled openContents) (Fulfilled ()))) = Rejected hashChangeError
   \<and> console (runOnFileName ''a.js'' idle) = []
   \<and> filesPending (runOnFileName ''a.js'' idle) = [''a.js'']"
  by code_simp

text \<open>
  Claim C8 fails on the code for what the child writes to its standard error. The
  listener for it is registered under the name \<open>err\<close>, and a stream announces what it
  reads under the name \<open>data\<close> (as the listener on the standard output expects): for a
  child that writes \<open>oops\<close> to standard error and \<open>hi\<close> to standard output and exits
  with code 0, the output kept is a line feed and \<open>hi\<close>.
\<close>

theorem stderr_not_captured:
  "jobOutput (fst (fold deliver stderrEvents (openJob, False))) = [CHR 0x0A] @ ''hi'' @ [CHR 0x0A]
   \<and> snd (fold deliver stderrEvents (openJob, False))"
  by code_simp

end
